theory Spec2Isabelle
  imports Complex_Main
begin

section \<open>Text primitives\<close>

text \<open>
  Python strings are modelled as HOL strings holding ASCII text.  The three
  character classes below are the ASCII parts of what \<^verbatim>\<open>str.lower\<close>,
  \<^verbatim>\<open>str.split\<close> / \<^verbatim>\<open>\s\<close> and \<^verbatim>\<open>\w\<close> use in Python 3.
\<close>

definition is_space :: "char \<Rightarrow> bool" where
  "is_space c = (let n = (of_char c :: nat) in (9 \<le> n \<and> n \<le> 13) \<or> (28 \<le> n \<and> n \<le> 32))"

definition is_upper :: "char \<Rightarrow> bool" where
  "is_upper c = (let n = (of_char c :: nat) in 65 \<le> n \<and> n \<le> 90)"

definition is_lower :: "char \<Rightarrow> bool" where
  "is_lower c = (let n = (of_char c :: nat) in 97 \<le> n \<and> n \<le> 122)"

definition is_digit :: "char \<Rightarrow> bool" where
  "is_digit c = (let n = (of_char c :: nat) in 48 \<le> n \<and> n \<le> 57)"

definition is_word :: "char \<Rightarrow> bool" where
  "is_word c = (is_upper c \<or> is_lower c \<or> is_digit c \<or> c = CHR ''_'')"

definition lower_char :: "char \<Rightarrow> char" where
  "lower_char c = (if is_upper c then char_of ((of_char c :: nat) + 32) else c)"

text \<open>\<^verbatim>\<open>s.lower()\<close>\<close>

definition lower :: "string \<Rightarrow> string" where
  "lower s = map lower_char s"

text \<open>\<^verbatim>\<open>s.split()\<close>: split on runs of whitespace, no empty pieces.  The first
  argument is the piece being read.\<close>

fun split_acc :: "string \<Rightarrow> string \<Rightarrow> string list" where
  "split_acc cur [] = (if cur = [] then [] else [cur])"
| "split_acc cur (c # cs) =
     (if is_space c then (if cur = [] then split_acc [] cs else cur # split_acc [] cs)
      else split_acc (cur @ [c]) cs)"

definition split :: "string \<Rightarrow> string list" where
  "split s = split_acc [] s"

text \<open>\<^verbatim>\<open>needle in haystack\<close> on strings.\<close>

fun is_prefix :: "string \<Rightarrow> string \<Rightarrow> bool" where
  "is_prefix [] ys = True"
| "is_prefix (x # xs) [] = False"
| "is_prefix (x # xs) (y # ys) = (x = y \<and> is_prefix xs ys)"

fun contains :: "string \<Rightarrow> string \<Rightarrow> bool" where
  "contains needle [] = (needle = [])"
| "contains needle (c # cs) = (is_prefix needle (c # cs) \<or> contains needle cs)"

section \<open>Floating-point arithmetic\<close>

text \<open>
  Python floats are IEEE 754 doubles.  A double is modelled by the rational
  number it denotes, and every arithmetic operation of the source on floats by
  the exact operation followed by \<open>fl\<close>, which rounds a rational to the nearest
  double, ties to the even significand: this is what true division of two
  integers, the conversion of an integer to a float, and float addition,
  multiplication and division do.  The exponent range is not modelled; the
  values the scorer computes are 0 or lie between the reciprocal of a list length
  and the square of one.
\<close>

text \<open>The number of binary digits of a positive integer.\<close>

function bitlen :: "int \<Rightarrow> nat" where
  "bitlen i = (if i \<le> 0 then 0 else Suc (bitlen (i div 2)))"
  by pat_completeness auto
termination
  by (relation "measure nat") auto

declare bitlen.simps [simp del]

definition round_half_even :: "rat \<Rightarrow> int" where
  "round_half_even y =
     (let f = \<lfloor>y\<rfloor>; r = y - of_int f in
      if r < 1 / 2 then f
      else if r > 1 / 2 then f + 1
      else if even f then f else f + 1)"

text \<open>For \<open>x > 0\<close>, the integer \<open>e\<close> with \<open>2 powi e \<le> x < 2 powi (e + 1)\<close>.\<close>

definition exponent :: "rat \<Rightarrow> int" where
  "exponent x =
     (let (p, q) = quotient_of x;
          k = int (bitlen p) - int (bitlen q) in
      if x < 2 powi k then k - 1 else k)"

text \<open>Rounding to 53 significant binary digits.\<close>

definition round_positive :: "rat \<Rightarrow> rat" where
  "round_positive x =
     (let s = exponent x - 52 in of_int (round_half_even (x / 2 powi s)) * 2 powi s)"

definition fl :: "rat \<Rightarrow> rat" where
  "fl x = (if x = 0 then 0 else if x < 0 then - round_positive (- x) else round_positive x)"

definition unit_roundoff :: rat where
  "unit_roundoff = 1 / 2 ^ 53"

section \<open>Relevance scorer (uom\_ai\_chatbot.py)\<close>

datatype error =
    ZeroDivisionError
  | FileNotFoundError string
  | OperationalError string

text \<open>\<^verbatim>\<open>self.stopwords\<close>, fixed in the constructor.\<close>

definition stopwords :: "string list" where
  "stopwords = [''the'', ''a'', ''an'', ''and'', ''or'', ''but'', ''in'', ''on'', ''at'', ''to'',
     ''for'', ''of'', ''with'', ''by'', ''is'', ''are'', ''was'', ''were'', ''be'', ''been'',
     ''have'', ''has'', ''had'', ''do'', ''does'', ''did'', ''will'', ''would'', ''could'',
     ''should'']"

text \<open>\<^verbatim>\<open>re.sub(r'[^\w\s]', ' ', ...)\<close> on one character.\<close>

definition sub_char :: "char \<Rightarrow> char" where
  "sub_char c = (if is_word c \<or> is_space c then c else CHR '' '')"

definition keep_word :: "string \<Rightarrow> bool" where
  "keep_word w = (w \<noteq> [] \<and> w \<notin> set stopwords \<and> length w > 2)"

definition preprocess_text :: "string \<Rightarrow> string list" where
  "preprocess_text text = filter keep_word (split (map sub_char (lower text)))"

text \<open>\<^verbatim>\<open>Counter(doc_words)\<close> as a map built word by word, and its
  \<^verbatim>\<open>.get(word, 0)\<close>.\<close>

fun counter_add :: "(string \<rightharpoonup> nat) \<Rightarrow> string list \<Rightarrow> (string \<rightharpoonup> nat)" where
  "counter_add m [] = m"
| "counter_add m (w # ws) =
     counter_add (m(w \<mapsto> (case m w of None \<Rightarrow> 1 | Some k \<Rightarrow> k + 1))) ws"

definition Counter :: "string list \<Rightarrow> (string \<rightharpoonup> nat)" where
  "Counter ws = counter_add Map.empty ws"

definition get0 :: "(string \<rightharpoonup> nat) \<Rightarrow> string \<Rightarrow> nat" where
  "get0 m w = (case m w of None \<Rightarrow> 0 | Some k \<Rightarrow> k)"

text \<open>The loop accumulating \<^verbatim>\<open>tf_score\<close>.  \<^verbatim>\<open>tf\<close> is the quotient of two
  integers, rounded once; \<^verbatim>\<open>tf_score\<close> starts as the integer 0, which the first
  addition converts to the float zero.\<close>

fun tf_loop :: "(string \<rightharpoonup> nat) \<Rightarrow> nat \<Rightarrow> rat \<Rightarrow> string list \<Rightarrow> rat" where
  "tf_loop freq n tf_score [] = tf_score"
| "tf_loop freq n tf_score (word # ws) =
     (let tf = fl (of_nat (get0 freq word) / of_nat n) in
      tf_loop freq n (if tf > 0 then fl (tf_score + tf) else tf_score) ws)"

text \<open>\<^verbatim>\<open>calculate_tf_idf\<close>: the division by \<^verbatim>\<open>len(query_words)\<close> raises
  \<^verbatim>\<open>ZeroDivisionError\<close> on an empty query list.  In
  \<^verbatim>\<open>tf_score * len([...]) / len(query_words)\<close> each length is converted to a
  float, and the product and the quotient are rounded.\<close>

definition calculate_tf_idf :: "string list \<Rightarrow> string \<Rightarrow> error + rat" where
  "calculate_tf_idf query_words document =
     (let doc_words = preprocess_text document;
          doc_word_count = length doc_words in
      if doc_word_count = 0 then Inr 0
      else
        let doc_word_freq = Counter doc_words;
            tf_score = tf_loop doc_word_freq doc_word_count 0 query_words;
            hits = length (filter (\<lambda>w. w \<in> set doc_words) query_words) in
        if length query_words = 0 then Inl ZeroDivisionError
        else Inr (fl (fl (tf_score * fl (of_nat hits)) / fl (of_nat (length query_words)))))"

text \<open>The score as the specification words it, in exact arithmetic:
  term-frequency sum times the fraction of distinct query tokens present in the
  document; and the same with every occurrence of a query token counted.\<close>

definition tf_sum :: "string list \<Rightarrow> string list \<Rightarrow> rat" where
  "tf_sum query_tokens doc_tokens =
     sum_list (map (\<lambda>t. of_nat (count_list doc_tokens t) / of_nat (length doc_tokens)) query_tokens)"

definition spec_score :: "string list \<Rightarrow> string \<Rightarrow> rat" where
  "spec_score query_tokens document_text =
     (let doc_tokens = preprocess_text document_text; n = length doc_tokens in
      if n = 0 then 0
      else tf_sum query_tokens doc_tokens *
           (of_nat (length (remdups (filter (\<lambda>t. t \<in> set doc_tokens) query_tokens)))
              / of_nat (length query_tokens)))"

definition occurrence_score :: "string list \<Rightarrow> string \<Rightarrow> rat" where
  "occurrence_score query_tokens document_text =
     (let doc_tokens = preprocess_text document_text; n = length doc_tokens in
      if n = 0 then 0
      else tf_sum query_tokens doc_tokens *
           (of_nat (length (filter (\<lambda>t. t \<in> set doc_tokens) query_tokens))
              / of_nat (length query_tokens)))"


text \<open>The factors by which the roundings of \<^verbatim>\<open>calculate_tf_idf\<close> on \<open>m\<close> query
  tokens can lower or raise the exact value.\<close>

definition rounding_lo :: "nat \<Rightarrow> rat" where
  "rounding_lo m = (1 - unit_roundoff) ^ (m + 4) / (1 + unit_roundoff)"

definition rounding_hi :: "nat \<Rightarrow> rat" where
  "rounding_hi m = (1 + unit_roundoff) ^ (m + 4) / (1 - unit_roundoff)"

section \<open>Intent classifier (uom\_ai\_chatbot.py)\<close>

datatype intent =
    faculty_info | admissions | departments | notifications
  | academics | research | contact | general

text \<open>\<^verbatim>\<open>self.intent_patterns\<close>: a dict, iterated in insertion order.\<close>

definition intent_patterns :: "(intent \<times> string list) list" where
  "intent_patterns =
     [(faculty_info, [''faculty'', ''professor'', ''teacher'', ''dr.'', ''dr '', ''staff'']),
      (admissions, [''admission'', ''apply'', ''application'', ''entry'', ''requirement'']),
      (departments, [''department'', ''dept'', ''school'', ''faculty of'']),
      (notifications, [''notification'', ''news'', ''announcement'', ''notice'', ''update'']),
      (academics, [''course'', ''program'', ''degree'', ''semester'', ''exam'', ''result'']),
      (research, [''research'', ''publication'', ''journal'', ''paper'', ''study'']),
      (contact, [''contact'', ''phone'', ''email'', ''address'', ''location'']),
      (general, [''about'', ''history'', ''information'', ''what is'', ''tell me''])]"

text \<open>\<^verbatim>\<open>sum(1 for keyword in keywords if keyword in query_lower)\<close>\<close>

definition keyword_score :: "string list \<Rightarrow> string \<Rightarrow> nat" where
  "keyword_score keywords query_lower = length (filter (\<lambda>keyword. contains keyword query_lower) keywords)"

text \<open>The loop filling \<^verbatim>\<open>intent_scores\<close>; the keys of \<^verbatim>\<open>intent_patterns\<close> are
  distinct, so every assignment appends a new key.\<close>

fun collect_scores :: "string \<Rightarrow> (intent \<times> string list) list \<Rightarrow> (intent \<times> nat) list" where
  "collect_scores query_lower [] = []"
| "collect_scores query_lower ((intent, keywords) # rest) =
     (let score = keyword_score keywords query_lower in
      if score > 0 then (intent, score) # collect_scores query_lower rest
      else collect_scores query_lower rest)"

text \<open>\<^verbatim>\<open>max(iterable, key=f)\<close>: the first item whose key is the greatest;
  \<^verbatim>\<open>ValueError\<close> on an empty iterable is \<open>None\<close>.\<close>

fun max_loop :: "('a \<Rightarrow> nat) \<Rightarrow> 'a \<Rightarrow> 'a list \<Rightarrow> 'a" where
  "max_loop f best [] = best"
| "max_loop f best (x # xs) = max_loop f (if f x > f best then x else best) xs"

fun max_key :: "('a \<Rightarrow> nat) \<Rightarrow> 'a list \<Rightarrow> 'a option" where
  "max_key f [] = None"
| "max_key f (x # xs) = Some (max_loop f x xs)"

text \<open>\<^verbatim>\<open>intent_scores.get\<close> as the key function: every key asked for is present.\<close>

definition scores_get :: "(intent \<times> nat) list \<Rightarrow> intent \<Rightarrow> nat" where
  "scores_get intent_scores k = (case map_of intent_scores k of Some v \<Rightarrow> v | None \<Rightarrow> 0)"

definition detect_intent :: "string \<Rightarrow> intent" where
  "detect_intent query =
     (let query_lower = lower query;
          intent_scores = collect_scores query_lower intent_patterns in
      case max_key (scores_get intent_scores) (map fst intent_scores) of
        Some best \<Rightarrow> best
      | None \<Rightarrow> general)"

text \<open>The classification rule in the specification's terms: the hit count of a
  category, and the position of a category in the fixed order.\<close>

definition hits :: "intent \<Rightarrow> string \<Rightarrow> nat" where
  "hits c query = (case map_of intent_patterns c of
       Some keywords \<Rightarrow> length (filter (\<lambda>k. contains k (lower query)) keywords)
     | None \<Rightarrow> 0)"

text \<open>The fixed order of the categories.\<close>

definition category_order :: "intent list" where
  "category_order = [faculty_info, admissions, departments, notifications,
     academics, research, contact, general]"

fun rank :: "intent \<Rightarrow> nat" where
  "rank faculty_info = 0"
| "rank admissions = 1"
| "rank departments = 2"
| "rank notifications = 3"
| "rank academics = 4"
| "rank research = 5"
| "rank contact = 6"
| "rank general = 7"

section \<open>More string operations\<close>

text \<open>\<^verbatim>\<open>s.strip()\<close> and \<^verbatim>\<open>s.strip('/')\<close>\<close>

definition strip_with :: "(char \<Rightarrow> bool) \<Rightarrow> string \<Rightarrow> string" where
  "strip_with p s = rev (dropWhile p (rev (dropWhile p s)))"

definition strip :: "string \<Rightarrow> string" where
  "strip s = strip_with is_space s"

text \<open>\<^verbatim>\<open>s.split(sep)\<close> for a one-character separator: empty pieces are kept.\<close>

fun split_on :: "char \<Rightarrow> string \<Rightarrow> string list" where
  "split_on sep [] = [[]]"
| "split_on sep (c # cs) =
     (if c = sep then [] # split_on sep cs
      else (case split_on sep cs of
              [] \<Rightarrow> [[c]]
            | piece # pieces \<Rightarrow> (c # piece) # pieces))"

definition endswith :: "string \<Rightarrow> string \<Rightarrow> bool" where
  "endswith s suf = is_prefix (rev suf) (rev s)"

definition nl :: string where
  "nl = [CHR 0x0A]"

text \<open>Lexicographic comparison of strings by character code, as Python compares
  \<^verbatim>\<open>str\<close> values.\<close>

fun str_less :: "string \<Rightarrow> string \<Rightarrow> bool" where
  "str_less [] [] = False"
| "str_less [] (y # ys) = True"
| "str_less (x # xs) [] = False"
| "str_less (x # xs) (y # ys) =
     ((of_char x :: nat) < of_char y \<or> (x = y \<and> str_less xs ys))"

text \<open>\<^verbatim>\<open>list.sort(key=..., reverse=True)\<close> and \<^verbatim>\<open>sorted(..., reverse=True)\<close>:
  a stable sort into descending order.  \<open>lt a b\<close> says that the key of \<open>a\<close> is
  smaller than the key of \<open>b\<close>.\<close>

fun insert_desc :: "('a \<Rightarrow> 'a \<Rightarrow> bool) \<Rightarrow> 'a \<Rightarrow> 'a list \<Rightarrow> 'a list" where
  "insert_desc lt x [] = [x]"
| "insert_desc lt x (y # ys) =
     (if lt x y then y # insert_desc lt x ys else x # y # ys)"

definition sort_desc :: "('a \<Rightarrow> 'a \<Rightarrow> bool) \<Rightarrow> 'a list \<Rightarrow> 'a list" where
  "sort_desc lt xs = foldr (insert_desc lt) xs []"

text \<open>\<^verbatim>\<open>str(n)\<close> for a natural number.\<close>

fun str_nat :: "nat \<Rightarrow> string" where
  "str_nat n = (if n < 10 then [char_of (48 + n)]
                else str_nat (n div 10) @ [char_of (48 + n mod 10)])"

section \<open>Knowledge base (uom\_ai\_chatbot.py)\<close>

text \<open>
  The rows of the four tables.  The source turns every row into a dict keyed by
  column name; here every column used by the code is a field, text columns hold
  strings (an absent value is the empty string) and the faculty count is a number.
\<close>

record page =
  url :: string
  title :: string
  content :: string
  content_type :: string

record faculty_member =
  name :: string
  designation :: string
  department :: string
  email :: string
  research_interests :: string
  bio :: string

record department_row =
  dept_name :: string
  description :: string
  head :: string
  faculty_count :: nat
  programs :: string

record notification =
  notif_title :: string
  date :: string
  notif_content :: string

text \<open>The SQLite file: each table is there or not.  The file system maps a path to
  the database stored there, if any.\<close>

record database =
  pages_table :: "page list option"
  faculty_table :: "faculty_member list option"
  departments_table :: "department_row list option"
  notifications_table :: "notification list option"

type_synonym file_system = "string \<Rightarrow> database option"

record knowledge_base =
  kb_pages :: "page list"
  kb_faculty :: "faculty_member list"
  kb_departments :: "department_row list"
  kb_notifications :: "notification list"
  faculty_index :: "(string \<times> faculty_member) list"
  department_index :: "(string \<times> department_row) list"

definition db_path :: "string \<Rightarrow> string" where
  "db_path data_dir = data_dir @ ''/university_knowledge.db''"

text \<open>\<^verbatim>\<open>load_knowledge_base\<close>: raises \<^verbatim>\<open>FileNotFoundError\<close> when the database file
  does not exist; a missing table makes SQLite raise \<^verbatim>\<open>OperationalError\<close>.\<close>

definition load_knowledge_base ::
  "file_system \<Rightarrow> string \<Rightarrow>
   error + (page list \<times> faculty_member list \<times> department_row list \<times> notification list)" where
  "load_knowledge_base fs data_dir =
     (case fs (db_path data_dir) of
        None \<Rightarrow> Inl (FileNotFoundError (''Knowledge base not found at '' @ db_path data_dir
                         @ ''. Please run data_scraper.py first.''))
      | Some db \<Rightarrow>
          (case pages_table db of
             None \<Rightarrow> Inl (OperationalError ''no such table: pages'')
           | Some ps \<Rightarrow>
          (case faculty_table db of
             None \<Rightarrow> Inl (OperationalError ''no such table: faculty'')
           | Some fms \<Rightarrow>
          (case departments_table db of
             None \<Rightarrow> Inl (OperationalError ''no such table: departments'')
           | Some ds \<Rightarrow>
          (case notifications_table db of
             None \<Rightarrow> Inl (OperationalError ''no such table: notifications'')
           | Some ns \<Rightarrow> Inr (ps, fms, ds, ns))))))"

text \<open>\<^verbatim>\<open>index[key] = value\<close> on a dict that keeps insertion order: an existing
  key keeps its place and gets the new value.\<close>

fun dict_set :: "'k \<Rightarrow> 'v \<Rightarrow> ('k \<times> 'v) list \<Rightarrow> ('k \<times> 'v) list" where
  "dict_set k v [] = [(k, v)]"
| "dict_set k v ((k', v') # rest) =
     (if k' = k then (k, v) # rest else (k', v') # dict_set k v rest)"

text \<open>One loop of \<^verbatim>\<open>build_indexes\<close>, for the rows \<open>rows\<close> with the name column
  \<open>name_of\<close>.\<close>

fun build_index :: "('r \<Rightarrow> string) \<Rightarrow> 'r list \<Rightarrow> (string \<times> 'r) list \<Rightarrow> (string \<times> 'r) list" where
  "build_index name_of [] index = index"
| "build_index name_of (row # rows) index =
     (let name = lower (name_of row) in
      build_index name_of rows (if name \<noteq> [] then dict_set name row index else index))"

text \<open>The constructor of \<^verbatim>\<open>UniversityKnowledgeBase\<close>.\<close>

definition init_knowledge_base :: "file_system \<Rightarrow> string \<Rightarrow> error + knowledge_base" where
  "init_knowledge_base fs data_dir =
     (case load_knowledge_base fs data_dir of
        Inl e \<Rightarrow> Inl e
      | Inr (ps, fms, ds, ns) \<Rightarrow>
          Inr \<lparr> kb_pages = ps, kb_faculty = fms, kb_departments = ds, kb_notifications = ns,
                faculty_index = build_index name fms [],
                department_index = build_index dept_name ds [] \<rparr>)"

text \<open>The partial-match loop shared by \<^verbatim>\<open>find_faculty_by_name\<close> and
  \<^verbatim>\<open>get_department_info\<close>.\<close>

fun partial_match :: "string \<Rightarrow> (string \<times> 'r) list \<Rightarrow> 'r option" where
  "partial_match name_lower [] = None"
| "partial_match name_lower ((key, info) # rest) =
     (if contains name_lower key \<or> list_ex (\<lambda>part. contains part key) (split name_lower)
      then Some info
      else partial_match name_lower rest)"

definition find_faculty_by_name :: "knowledge_base \<Rightarrow> string \<Rightarrow> faculty_member option" where
  "find_faculty_by_name kb nm =
     (let name_lower = lower nm in
      case map_of (faculty_index kb) name_lower of
        Some info \<Rightarrow> Some info
      | None \<Rightarrow> partial_match name_lower (faculty_index kb))"

definition get_department_info :: "knowledge_base \<Rightarrow> string \<Rightarrow> department_row option" where
  "get_department_info kb dn =
     (let dept_lower = lower dn in
      case map_of (department_index kb) dept_lower of
        Some info \<Rightarrow> Some info
      | None \<Rightarrow> partial_match dept_lower (department_index kb))"

definition get_recent_notifications :: "knowledge_base \<Rightarrow> nat \<Rightarrow> notification list" where
  "get_recent_notifications kb limit =
     take limit (sort_desc (\<lambda>a b. str_less (date a) (date b)) (kb_notifications kb))"

text \<open>The partial-match condition in the specification's terms, on the lowercased
  name of a record.\<close>

definition name_matches :: "string \<Rightarrow> string \<Rightarrow> bool" where
  "name_matches query_lower record_name_lower =
     (contains query_lower record_name_lower
      \<or> (\<exists>part \<in> set (split query_lower). contains part record_name_lower))"

text \<open>A small knowledge base used to run the definitions.\<close>

definition example_faculty :: "faculty_member list" where
  "example_faculty =
     [\<lparr>name = ''Dr. Ali Khan'', designation = ''Professor'', department = ''Computer Science'',
        email = ''ali@uom.edu.pk'', research_interests = ''Databases'', bio = ''''\<rparr>,
      \<lparr>name = ''Dr. Sara Ahmed'', designation = ''Lecturer'', department = ''English'',
        email = '''', research_interests = '''', bio = ''Teaches literature''\<rparr>]"

definition example_kb :: knowledge_base where
  "example_kb = \<lparr> kb_pages = [], kb_faculty = example_faculty, kb_departments = [],
       kb_notifications = [],
       faculty_index = build_index name example_faculty [], department_index = [] \<rparr>"

section \<open>Search (uom\_ai\_chatbot.py)\<close>

record SearchResult =
  sr_content :: string
  sr_title :: string
  sr_url :: string
  category :: string
  relevance_score :: rat
  snippet :: string

text \<open>The loop of \<^verbatim>\<open>create_snippet\<close> over the sentences; the state is
  \<^verbatim>\<open>(best_sentence, best_score)\<close>.\<close>

fun snippet_loop :: "string list \<Rightarrow> string \<times> nat \<Rightarrow> string list \<Rightarrow> string \<times> nat" where
  "snippet_loop query_words best [] = best"
| "snippet_loop query_words (best_sentence, best_score) (sentence # sentences) =
     (let sentence_words = preprocess_text sentence;
          score = length (remdups (filter (\<lambda>w. w \<in> set sentence_words) query_words)) in
      snippet_loop query_words
        (if score > best_score then (strip sentence, score) else (best_sentence, best_score))
        sentences)"

definition create_snippet :: "string \<Rightarrow> string list \<Rightarrow> nat \<Rightarrow> string" where
  "create_snippet text query_words snippet_length =
     (let sentences = split_on CHR ''.'' text;
          best_sentence = fst (snippet_loop query_words ([], 0) sentences);
          best_sentence = (if length best_sentence > snippet_length
                           then take snippet_length best_sentence @ ''...''
                           else best_sentence) in
      if best_sentence \<noteq> [] then best_sentence
      else take snippet_length text @ ''...'')"

text \<open>The loop of \<^verbatim>\<open>semantic_search\<close> over the pages; an exception of
  \<^verbatim>\<open>calculate_tf_idf\<close> ends it.\<close>

fun search_pages :: "string list \<Rightarrow> page list \<Rightarrow> error + SearchResult list" where
  "search_pages query_words [] = Inr []"
| "search_pages query_words (p # ps) =
     (case calculate_tf_idf query_words (content p) of
        Inl e \<Rightarrow> Inl e
      | Inr relevance \<Rightarrow>
          (case search_pages query_words ps of
             Inl e \<Rightarrow> Inl e
           | Inr results \<Rightarrow>
               Inr (if relevance > 0
                    then \<lparr> sr_content = content p, sr_title = title p, sr_url = url p,
                           category = content_type p, relevance_score = relevance,
                           snippet = create_snippet (content p) query_words 200 \<rparr> # results
                    else results)))"

definition semantic_search :: "knowledge_base \<Rightarrow> string \<Rightarrow> nat \<Rightarrow> error + SearchResult list" where
  "semantic_search kb query limit =
     (let query_words = preprocess_text query in
      case search_pages query_words (kb_pages kb) of
        Inl e \<Rightarrow> Inl e
      | Inr results \<Rightarrow>
          Inr (take limit (sort_desc (\<lambda>a b. relevance_score a < relevance_score b) results)))"

section \<open>Entity extraction (uom\_ai\_chatbot.py)\<close>

definition is_alpha :: "char \<Rightarrow> bool" where
  "is_alpha c = (is_upper c \<or> is_lower c)"

text \<open>
  The tail \<^verbatim>\<open>\s+[a-z\s]+\<close> of the patterns (matched with \<^verbatim>\<open>re.IGNORECASE\<close>) at the
  start of a string: it matches the longest run of letters and whitespace,
  provided the run starts with whitespace and has at least two characters.
\<close>

definition match_run :: "string \<Rightarrow> string option" where
  "match_run s =
     (let r = takeWhile (\<lambda>c. is_alpha c \<or> is_space c) s in
      if length r \<ge> 2 \<and> is_space (hd r) then Some r else None)"

text \<open>\<^verbatim>\<open>(kw\.?\s+[a-z\s]+)\<close>, or \<^verbatim>\<open>(kw\s+[a-z\s]+)\<close> when \<open>dot\<close> is false, matched at
  the start of \<open>s\<close>; the result is group 1, the whole match.\<close>

definition match_person :: "string \<Rightarrow> bool \<Rightarrow> string \<Rightarrow> string option" where
  "match_person kw dot s =
     (if length kw \<le> length s \<and> lower (take (length kw) s) = kw then
        let rest = drop (length kw) s;
            has_dot = (dot \<and> rest \<noteq> [] \<and> hd rest = CHR ''.'');
            rest = (if has_dot then tl rest else rest) in
        case match_run rest of
          Some r \<Rightarrow> Some (take (length kw) s @ (if has_dot then ''.'' else []) @ r)
        | None \<Rightarrow> None
      else None)"

text \<open>\<^verbatim>\<open>kw\s+([a-z\s]+)\<close> matched at the start of \<open>s\<close>; the result is group 1: what
  follows the leading whitespace of the run, or its last whitespace character
  when the run is whitespace only.\<close>

definition match_department :: "string \<Rightarrow> string \<Rightarrow> string option" where
  "match_department kw s =
     (if length kw \<le> length s \<and> lower (take (length kw) s) = kw then
        case match_run (drop (length kw) s) of
          Some r \<Rightarrow> (let g = dropWhile is_space r in Some (if g \<noteq> [] then g else [last r]))
        | None \<Rightarrow> None
      else None)"

text \<open>\<^verbatim>\<open>re.search\<close>: the match at the leftmost position that has one.\<close>

fun re_search :: "(string \<Rightarrow> string option) \<Rightarrow> string \<Rightarrow> string option" where
  "re_search m [] = m []"
| "re_search m (c # cs) = (case m (c # cs) of Some g \<Rightarrow> Some g | None \<Rightarrow> re_search m cs)"

text \<open>A loop over patterns that stops at the first one that matches.\<close>

fun first_match :: "('p \<Rightarrow> string option) \<Rightarrow> 'p list \<Rightarrow> string option" where
  "first_match f [] = None"
| "first_match f (p # ps) = (case f p of Some g \<Rightarrow> Some (strip g) | None \<Rightarrow> first_match f ps)"

record entities =
  person :: "string option"
  department_entity :: "string option"

definition extract_entities :: "string \<Rightarrow> entities" where
  "extract_entities query =
     \<lparr> person = first_match (\<lambda>(kw, dot). re_search (match_person kw dot) query)
                  [(''dr'', True), (''prof'', True), (''professor'', False)],
       department_entity = first_match (\<lambda>kw. re_search (match_department kw) query)
                  [''department of'', ''dept of'', ''faculty of''] \<rparr>"

section \<open>Response composer and chat (uom\_ai\_chatbot.py)\<close>

text \<open>The two non-ASCII prefixes of the source, as the bytes of the source file.\<close>

definition bullet :: string where
  "bullet = [CHR 0xE2, CHR 0x80, CHR 0x9A, CHR 0xC3, CHR 0x84, CHR 0xC2, CHR 0xA2]"

definition bulb :: string where
  "bulb = [CHR 0xEF, CHR 0xA3, CHR 0xBF, CHR 0xC3, CHR 0xBC, CHR 0xC3, CHR 0xAD, CHR 0xC2, CHR 0xB0]"

text \<open>\<^verbatim>\<open>f"**{result.title}**\n{result.snippet}\n\n"\<close> for each result.\<close>

definition titled_results :: "SearchResult list \<Rightarrow> string" where
  "titled_results results =
     concat (map (\<lambda>r. ''**'' @ sr_title r @ ''**'' @ nl @ snippet r @ nl @ nl) results)"

definition faculty_response :: "faculty_member \<Rightarrow> string" where
  "faculty_response fi =
     ''**'' @ name fi @ ''**'' @ nl
     @ (if designation fi \<noteq> [] then ''Position: '' @ designation fi @ nl else [])
     @ (if department fi \<noteq> [] then ''Department: '' @ department fi @ nl else [])
     @ (if email fi \<noteq> [] then ''Email: '' @ email fi @ nl else [])
     @ (if research_interests fi \<noteq> []
        then ''Research Interests: '' @ research_interests fi @ nl else [])
     @ (if bio fi \<noteq> [] then nl @ ''Bio: '' @ take 200 (bio fi) @ ''...'' else [])"

definition handle_faculty_query :: "knowledge_base \<Rightarrow> string \<Rightarrow> entities \<Rightarrow> error + string" where
  "handle_faculty_query kb query ents =
     (case (case person ents of
              Some p \<Rightarrow> find_faculty_by_name kb p
            | None \<Rightarrow> None) of
        Some fi \<Rightarrow> Inr (faculty_response fi)
      | None \<Rightarrow>
          (case semantic_search kb query 3 of
             Inl e \<Rightarrow> Inl e
           | Inr search_results \<Rightarrow>
               (let faculty_results = filter (\<lambda>r. category r = ''faculty'') search_results in
                if faculty_results \<noteq> [] then
                  Inr (''Here's what I found about faculty:'' @ nl @ nl
                       @ titled_results (take 2 faculty_results))
                else
                  Inr ''I couldn't find specific faculty information. Could you provide more details or check the faculty directory on the university website?'')))"

definition handle_admissions_query :: "knowledge_base \<Rightarrow> string \<Rightarrow> error + string" where
  "handle_admissions_query kb query =
     (case semantic_search kb query 5 of
        Inl e \<Rightarrow> Inl e
      | Inr search_results \<Rightarrow>
          (let admission_results =
                 filter (\<lambda>r. category r = ''admissions'' \<or> contains ''admission'' (lower (sr_title r)))
                   search_results in
           if admission_results \<noteq> [] then
             Inr (''**Admissions Information:**'' @ nl @ nl
                  @ titled_results (take 3 admission_results)
                  @ nl @ ''For the most current admission requirements and deadlines, please visit the university's official admissions page.'')
           else
             (case semantic_search kb query 2 of
                Inl e \<Rightarrow> Inl e
              | Inr general_results \<Rightarrow>
                  if general_results \<noteq> [] then
                    Inr (''Here's what I found about admissions:'' @ nl @ nl
                         @ concat (map (\<lambda>r. snippet r @ nl @ nl) general_results))
                  else
                    Inr ''For detailed admission information, please visit the university's official website or contact the admissions office directly.'')))"

definition department_response :: "department_row \<Rightarrow> string" where
  "department_response di =
     ''**'' @ dept_name di @ ''**'' @ nl
     @ (if description di \<noteq> [] then ''Description: '' @ description di @ nl else [])
     @ (if head di \<noteq> [] then ''Department Head: '' @ head di @ nl else [])
     @ (if faculty_count di \<noteq> 0 then ''Faculty Members: '' @ str_nat (faculty_count di) @ nl else [])
     @ (if programs di \<noteq> [] then ''Programs: '' @ programs di @ nl else [])"

definition handle_department_query :: "knowledge_base \<Rightarrow> string \<Rightarrow> entities \<Rightarrow> error + string" where
  "handle_department_query kb query ents =
     (case (case department_entity ents of
              Some d \<Rightarrow> get_department_info kb d
            | None \<Rightarrow> None) of
        Some di \<Rightarrow> Inr (department_response di)
      | None \<Rightarrow>
          (case semantic_search kb query 3 of
             Inl e \<Rightarrow> Inl e
           | Inr search_results \<Rightarrow>
               (let dept_results = filter (\<lambda>r. category r = ''department'') search_results in
                if dept_results \<noteq> [] then
                  Inr (''Here's information about departments:'' @ nl @ nl
                       @ titled_results dept_results)
                else
                  Inr ''I couldn't find specific department information. Please provide more details about which department you're interested in.'')))"

definition notification_response :: "notification \<Rightarrow> string" where
  "notification_response n =
     bullet @ '' **'' @ notif_title n @ ''**'' @ nl
     @ (if date n \<noteq> [] then ''  Date: '' @ date n @ nl else [])
     @ (if notif_content n \<noteq> [] then ''  '' @ take 100 (notif_content n) @ ''...'' @ nl @ nl else [])"

definition handle_notifications_query :: "knowledge_base \<Rightarrow> string \<Rightarrow> error + string" where
  "handle_notifications_query kb query =
     (let recent_notifications = get_recent_notifications kb 5 in
      if recent_notifications \<noteq> [] then
        Inr (''**Recent University Notifications:**'' @ nl @ nl
             @ concat (map notification_response recent_notifications))
      else
        (case semantic_search kb query 3 of
           Inl e \<Rightarrow> Inl e
         | Inr search_results \<Rightarrow>
             (let notification_results =
                    filter (\<lambda>r. category r = ''notifications'') search_results in
              if notification_results \<noteq> [] then
                Inr (''**University Updates:**'' @ nl @ nl @ titled_results notification_results)
              else
                Inr ''Please check the university's official website for the latest notifications and announcements.'')))"

text \<open>The thresholds \<^verbatim>\<open>0.1\<close> and \<^verbatim>\<open>0.05\<close> are the doubles nearest to 1/10 and
  1/20.\<close>

definition handle_general_query :: "knowledge_base \<Rightarrow> string \<Rightarrow> error + string" where
  "handle_general_query kb query =
     (case semantic_search kb query 5 of
        Inl e \<Rightarrow> Inl e
      | Inr search_results \<Rightarrow>
          if search_results = [] then
            Inr ''I'm sorry, I couldn't find specific information about that. Could you please rephrase your question or be more specific?''
          else
            (let high_relevance = filter (\<lambda>r. relevance_score r > fl (1 / 10)) search_results;
                 medium_relevance =
                   filter (\<lambda>r. fl (1 / 20) < relevance_score r \<and> relevance_score r \<le> fl (1 / 10))
                     search_results in
             Inr ((if high_relevance \<noteq> []
                   then ''Here's what I found:'' @ nl @ nl @ titled_results (take 2 high_relevance)
                   else [])
                  @ (if medium_relevance \<noteq> [] \<and> length high_relevance < 2
                     then ''Additional information:'' @ nl @ nl
                          @ titled_results (take 1 medium_relevance)
                     else [])
                  @ nl @ bulb @ '' *You can ask me about faculty members, departments, admissions, research, or recent notifications.*'')))"

definition generate_response :: "knowledge_base \<Rightarrow> string \<Rightarrow> error + string" where
  "generate_response kb query =
     (let intent = detect_intent query;
          ents = extract_entities query in
      if intent = faculty_info then handle_faculty_query kb query ents
      else if intent = admissions then handle_admissions_query kb query
      else if intent = departments then handle_department_query kb query ents
      else if intent = notifications then handle_notifications_query kb query
      else handle_general_query kb query)"

text \<open>
  The chatbot object: its knowledge base and its conversation log.  An entry of
  the log is a user entry (timestamp, query) or a bot entry (timestamp,
  response).
\<close>

datatype history_entry = UserEntry string string | BotEntry string string

record chatbot =
  kb :: knowledge_base
  conversation_history :: "history_entry list"

text \<open>The constructor of \<^verbatim>\<open>UniversityAIChatbot\<close>.\<close>

definition init_chatbot :: "file_system \<Rightarrow> string \<Rightarrow> error + chatbot" where
  "init_chatbot fs data_dir =
     (case init_knowledge_base fs data_dir of
        Inl e \<Rightarrow> Inl e
      | Inr k \<Rightarrow> Inr \<lparr> kb = k, conversation_history = [] \<rparr>)"

text \<open>
  \<^verbatim>\<open>chat\<close>: \<open>t1\<close> and \<open>t2\<close> are the two readings of the clock.  The result is the
  returned string or the exception raised, with the chatbot after the call; an
  exception of \<^verbatim>\<open>generate_response\<close> leaves the method before the bot entry
  is appended.
\<close>

definition chat :: "chatbot \<Rightarrow> string \<Rightarrow> string \<Rightarrow> string \<Rightarrow> (error + string) \<times> chatbot" where
  "chat self t1 t2 query =
     (let self1 = self\<lparr> conversation_history := conversation_history self @ [UserEntry t1 query] \<rparr> in
      case generate_response (kb self1) query of
        Inl e \<Rightarrow> (Inl e, self1)
      | Inr response \<Rightarrow>
          (Inr response,
           self1\<lparr> conversation_history := conversation_history self1 @ [BotEntry t2 response] \<rparr>))"

text \<open>A knowledge base with one page and no other rows.\<close>

definition one_page_kb :: knowledge_base where
  "one_page_kb = \<lparr> kb_pages = [\<lparr> url = ''https://uom.edu.pk/about'', title = ''About'',
                         content = ''University of Malakand was established in 2001.'',
                         content_type = ''general'' \<rparr>],
       kb_faculty = [], kb_departments = [], kb_notifications = [],
       faculty_index = [], department_index = [] \<rparr>"

definition empty_kb :: knowledge_base where
  "empty_kb = \<lparr> kb_pages = [], kb_faculty = [], kb_departments = [], kb_notifications = [],
       faculty_index = [], department_index = [] \<rparr>"

section \<open>Crawler (data\_scraper.py)\<close>

text \<open>
  What the crawler sees of the outside world.  \<open>fetch\<close> is
  \<^verbatim>\<open>requests.get\<close>, \<^verbatim>\<open>raise_for_status\<close> and the HTML parse: \<open>None\<close> when a
  \<^verbatim>\<open>RequestException\<close> is raised, otherwise the parsed page, of which the code
  reads the \<^verbatim>\<open>href\<close> of every anchor that has one and the text of every
  paragraph, both in document order.  \<open>urljoin\<close> and the three components
  given by \<^verbatim>\<open>urlparse\<close> belong to the standard library and are parameters.
\<close>

record soup =
  anchors :: "string list"
  paragraphs :: "string list"

record web =
  fetch :: "string \<Rightarrow> soup option"
  urljoin :: "string \<Rightarrow> string \<Rightarrow> string"
  scheme :: "string \<Rightarrow> string"
  netloc :: "string \<Rightarrow> string"
  path :: "string \<Rightarrow> string"

definition base_url :: string where
  "base_url = ''https://uom.edu.pk''"

definition output_dir :: string where
  "output_dir = ''university_data''"

text \<open>The lines printed by the crawler.\<close>

datatype printed_line =
    Crawling string
  | Error_fetching string
  | Saved_content string string
  | File_exists string
  | Found_PDF string

text \<open>
  The state of a run: the two module-level variables, the files of the output
  directory, the local queue of \<^verbatim>\<open>crawl\<close> and the standard output.
\<close>

record crawler_state =
  visited_urls :: "string set"
  pdf_links :: "string list"
  files :: "string \<rightharpoonup> string"
  queue :: "string list"
  printed :: "printed_line list"

definition is_valid :: "web \<Rightarrow> string \<Rightarrow> bool" where
  "is_valid w u = (scheme w u \<in> set [''http'', ''https''] \<and> netloc w u = netloc w base_url)"

text \<open>
  The loop of \<^verbatim>\<open>get_all_links\<close> over the anchors.  \<^verbatim>\<open>links\<close> is a Python set,
  whose iteration order is not specified; the model keeps the links in the order
  of first discovery.  \<^verbatim>\<open>full_url.split('#')[0]\<close> is the part before the
  first \<^verbatim>\<open>#\<close>.
\<close>

fun collect_links :: "web \<Rightarrow> string \<Rightarrow> string set \<Rightarrow> string list \<Rightarrow> string list \<Rightarrow> string list" where
  "collect_links w u visited [] links = links"
| "collect_links w u visited (href # hrefs) links =
     (let full_url = urljoin w u href;
          full_url = (if CHR ''#'' \<in> set full_url
                      then takeWhile (\<lambda>c. c \<noteq> CHR ''#'') full_url else full_url) in
      collect_links w u visited hrefs
        (if is_valid w full_url \<and> full_url \<notin> visited \<and> full_url \<notin> set links
         then links @ [full_url] else links))"

definition get_all_links ::
  "web \<Rightarrow> string \<Rightarrow> crawler_state \<Rightarrow> (string list \<times> soup option) \<times> crawler_state" where
  "get_all_links w u s =
     (case fetch w u of
        None \<Rightarrow> (([], None), s\<lparr> printed := printed s @ [Error_fetching u] \<rparr>)
      | Some sp \<Rightarrow>
          ((collect_links w u (visited_urls s) (anchors sp) [], Some sp),
           s\<lparr> visited_urls := insert u (visited_urls s) \<rparr>))"

definition save_content :: "web \<Rightarrow> string \<Rightarrow> string \<Rightarrow> crawler_state \<Rightarrow> crawler_state" where
  "save_content w u text s =
     (let stripped = map (\<lambda>c. if c = CHR ''/'' then CHR ''_'' else c)
                       (strip_with (\<lambda>c. c = CHR ''/'') (path w u));
          filename = (if stripped \<noteq> [] then stripped else ''index'');
          filepath = output_dir @ ''/'' @ filename @ ''.txt'' in
      if files s filepath = None then
        s\<lparr> files := (files s)(filepath \<mapsto> text),
           printed := printed s @ [Saved_content u filepath] \<rparr>
      else s\<lparr> printed := printed s @ [File_exists filepath] \<rparr>)"

fun find_pdfs :: "web \<Rightarrow> string list \<Rightarrow> string \<Rightarrow> crawler_state \<Rightarrow> crawler_state" where
  "find_pdfs w [] u s = s"
| "find_pdfs w (href # hrefs) u s =
     (let full_url = urljoin w u href in
      find_pdfs w hrefs u
        (if endswith (lower full_url) ''.pdf'' \<and> full_url \<notin> set (pdf_links s)
         then s\<lparr> pdf_links := pdf_links s @ [full_url],
                 printed := printed s @ [Found_PDF full_url] \<rparr>
         else s))"

text \<open>The loop adding new links to the queue.\<close>

fun enqueue :: "string list \<Rightarrow> crawler_state \<Rightarrow> crawler_state" where
  "enqueue [] s = s"
| "enqueue (link # links) s =
     enqueue links
       (if link \<notin> visited_urls s
        then s\<lparr> visited_urls := insert link (visited_urls s), queue := queue s @ [link] \<rparr>
        else s)"

text \<open>\<^verbatim>\<open>' '.join(...)\<close> and \<^verbatim>\<open>re.sub(r'\s+', ' ', ...)\<close>; the flag of
  \<open>collapse_ws\<close> says that the previous character was whitespace.\<close>

fun join_space :: "string list \<Rightarrow> string" where
  "join_space [] = []"
| "join_space [x] = x"
| "join_space (x # y # ys) = x @ '' '' @ join_space (y # ys)"

fun collapse_ws :: "bool \<Rightarrow> string \<Rightarrow> string" where
  "collapse_ws in_ws [] = []"
| "collapse_ws in_ws (c # cs) =
     (if is_space c then (if in_ws then collapse_ws True cs else CHR '' '' # collapse_ws True cs)
      else c # collapse_ws False cs)"

text \<open>One pass through the body of the \<^verbatim>\<open>while queue:\<close> loop.\<close>

definition crawl_step :: "web \<Rightarrow> crawler_state \<Rightarrow> crawler_state" where
  "crawl_step w s =
     (case queue s of
        [] \<Rightarrow> s
      | current_url # rest \<Rightarrow>
          (let s1 = s\<lparr> queue := rest, printed := printed s @ [Crawling current_url] \<rparr> in
           case get_all_links w current_url s1 of
             ((links, None), s2) \<Rightarrow> s2
           | ((links, Some sp), s2) \<Rightarrow>
               (let page_text = strip (collapse_ws False (join_space (paragraphs sp)));
                    s3 = (if page_text \<noteq> [] then save_content w current_url page_text s2 else s2);
                    s4 = find_pdfs w (anchors sp) current_url s3 in
                enqueue links s4)))"

text \<open>The \<^verbatim>\<open>while\<close> loop: \<open>None\<close> when it runs forever.\<close>

partial_function (option) crawl_loop :: "web \<Rightarrow> crawler_state \<Rightarrow> crawler_state option" where
  "crawl_loop w s = (if queue s = [] then Some s else crawl_loop w (crawl_step w s))"

declare crawl_loop.simps [code]

definition crawl_start :: "string \<Rightarrow> crawler_state \<Rightarrow> crawler_state" where
  "crawl_start start_url s =
     s\<lparr> queue := [start_url], visited_urls := insert start_url (visited_urls s) \<rparr>"

definition crawl :: "web \<Rightarrow> string \<Rightarrow> crawler_state \<Rightarrow> crawler_state option" where
  "crawl w start_url s = crawl_loop w (crawl_start start_url s)"

text \<open>The state when the module calls \<^verbatim>\<open>crawl(base_url)\<close>, for the files
  \<open>fs\<close> already in the output directory.\<close>

definition module_state :: "(string \<rightharpoonup> string) \<Rightarrow> crawler_state" where
  "module_state fs = \<lparr> visited_urls = {}, pdf_links = [], files = fs, queue = [], printed = [] \<rparr>"

text \<open>The URLs taken from the queue so far, read off the standard output, and
  the URLs admitted to the queue so far: the queue is first-in first-out, so
  these are the URLs already taken from it followed by those still in it.\<close>

fun crawled :: "printed_line list \<Rightarrow> string list" where
  "crawled [] = []"
| "crawled (Crawling u # ls) = u # crawled ls"
| "crawled (l # ls) = crawled ls"

definition admitted :: "crawler_state \<Rightarrow> string list" where
  "admitted s = crawled (printed s) @ queue s"

text \<open>A site without end: the page at \<open>u\<close> links to \<open>u/x\<close>.\<close>


definition chain_web :: web where
  "chain_web = \<lparr> fetch = (\<lambda>u. Some \<lparr> anchors = [u @ ''/x''], paragraphs = [] \<rparr>),
       urljoin = (\<lambda>base href. href),
       scheme = (\<lambda>u. ''https''),
       netloc = (\<lambda>u. ''uom.edu.pk''),
       path = (\<lambda>u. drop (length base_url) u) \<rparr>"

text \<open>The URLs of that site, and what holds of the state throughout its crawl:
  the queue holds the one URL not fetched yet.\<close>

fun chain_url :: "nat \<Rightarrow> string" where
  "chain_url 0 = base_url"
| "chain_url (Suc n) = chain_url n @ ''/x''"

definition chain_inv :: "crawler_state \<Rightarrow> bool" where
  "chain_inv s = (\<exists>n. queue s = [chain_url n] \<and> visited_urls s \<subseteq> chain_url ` {..n})"

text \<open>A site of two pages: the seed links to \<open>/gone\<close>, which cannot be fetched.\<close>

definition two_page_web :: web where
  "two_page_web = \<lparr>
       fetch = (\<lambda>u. if u = base_url then Some \<lparr> anchors = [''/gone''], paragraphs = [] \<rparr>
                    else None),
       urljoin = (\<lambda>base href. base @ href),
       scheme = (\<lambda>u. ''https''),
       netloc = (\<lambda>u. ''uom.edu.pk''),
       path = (\<lambda>u. drop (length base_url) u) \<rparr>"

text \<open>The invariant of the crawl loop: no URL was admitted twice, and every
  admitted URL is in the visited set.\<close>

definition crawl_inv :: "crawler_state \<Rightarrow> bool" where
  "crawl_inv s = (distinct (admitted s) \<and> set (admitted s) \<subseteq> visited_urls s)"

section \<open>Properties of rounding\<close>

lemma bitlen_bounds:
  "0 < i \<Longrightarrow> 2 ^ bitlen i \<le> 2 * i \<and> i < 2 ^ bitlen i"
proof (induction i rule: bitlen.induct)
  case (1 i)
  show ?case
  proof (cases "i div 2 \<le> 0")
    case True
    with 1(2) have "i = 1" by linarith
    then show ?thesis by (simp add: bitlen.simps)
  next
    case False
    then have pos: "0 < i div 2" by simp
    from 1(1)[OF _ pos] 1(2)
    have IH: "2 ^ bitlen (i div 2) \<le> 2 * (i div 2)" "i div 2 < 2 ^ bitlen (i div 2)"
      by simp_all
    have b: "bitlen i = Suc (bitlen (i div 2))"
      using 1(2) by (subst bitlen.simps) simp
    have "2 * (i div 2) \<le> i" by linarith
    moreover have "i \<le> 2 * (i div 2) + 1" by linarith
    ultimately show ?thesis unfolding b using IH by simp
  qed
qed

lemma round_half_even_error: "\<bar>of_int (round_half_even y) - y\<bar> \<le> 1 / 2"
proof -
  define r where "r = y - of_int \<lfloor>y\<rfloor>"
  have r: "0 \<le> r" "r < 1" unfolding r_def by linarith+
  have y: "y = of_int \<lfloor>y\<rfloor> + r" unfolding r_def by simp
  consider "r < 1 / 2" | "r > 1 / 2" | "r = 1 / 2" by linarith
  then show ?thesis
  proof cases
    case 1
    then have "round_half_even y = \<lfloor>y\<rfloor>"
      by (simp add: round_half_even_def Let_def r_def)
    then show ?thesis using 1 r by (subst (2) y) simp
  next
    case 2
    then have "round_half_even y = \<lfloor>y\<rfloor> + 1"
      by (simp add: round_half_even_def Let_def r_def)
    then show ?thesis using 2 r by (subst (2) y) simp
  next
    case 3
    then have "round_half_even y = \<lfloor>y\<rfloor> \<or> round_half_even y = \<lfloor>y\<rfloor> + 1"
      by (simp add: round_half_even_def Let_def r_def)
    moreover have "\<bar>rat_of_int \<lfloor>y\<rfloor> - y\<bar> \<le> 1 / 2"
      using 3 unfolding r_def by linarith
    moreover have "\<bar>rat_of_int (\<lfloor>y\<rfloor> + 1) - y\<bar> \<le> 1 / 2"
      using 3 unfolding r_def by simp
    ultimately show ?thesis by metis
  qed
qed

lemma exponent_bounds:
  assumes "0 < x"
  shows "2 powi (exponent x) \<le> x \<and> x < 2 powi (exponent x + 1)"
proof -
  obtain p q where pq: "quotient_of x = (p, q)" by (cases "quotient_of x")
  then have q: "0 < q" by (rule quotient_of_denom_pos)
  have x: "x = of_int p / of_int q" using pq by (rule quotient_of_div)
  have p: "0 < p" using assms q unfolding x by (simp add: zero_less_divide_iff)
  define a where "a = bitlen p"
  define b where "b = bitlen q"
  from bitlen_bounds[OF p] have pa: "(2::rat) ^ a \<le> 2 * of_int p" "(of_int p :: rat) < 2 ^ a"
    unfolding a_def
    by (metis of_int_le_iff of_int_mult of_int_numeral of_int_power,
        metis of_int_less_iff of_int_numeral of_int_power)
  from bitlen_bounds[OF q] have qb: "(2::rat) ^ b \<le> 2 * of_int q" "(of_int q :: rat) < 2 ^ b"
    unfolding b_def
    by (metis of_int_le_iff of_int_mult of_int_numeral of_int_power,
        metis of_int_less_iff of_int_numeral of_int_power)
  have qpos: "(0::rat) < of_int q" using q by simp
  have ppos: "(0::rat) < of_int p" using p by simp
  have k: "(2::rat) powi (int a - int b) = 2 ^ a / 2 ^ b"
    by (simp add: power_int_diff)
  have km: "(2::rat) powi (int a - int b - 1) = 2 ^ a / 2 ^ b / 2"
    by (simp add: power_int_diff)
  have kp: "(2::rat) powi (int a - int b + 1) = 2 ^ a / 2 ^ b * 2"
    by (simp add: power_int_add power_int_diff)
  have lower: "(2::rat) ^ a / 2 ^ b / 2 \<le> x"
  proof -
    have "(2::rat) ^ a / 2 ^ b / 2 \<le> of_int p / 2 ^ b"
      using pa(1) by (simp add: field_simps)
    also have "\<dots> \<le> of_int p / of_int q"
      using qb(2) ppos qpos by (simp add: frac_le)
    finally show ?thesis unfolding x .
  qed
  have upper: "x < (2::rat) ^ a / 2 ^ b * 2"
  proof -
    have "of_int p / of_int q < (2::rat) ^ a / of_int q"
      using pa(2) qpos by (simp add: divide_strict_right_mono)
    also have "\<dots> \<le> 2 ^ a / (2 ^ b / 2)"
      using qb(1) qpos by (intro divide_left_mono) (simp_all add: field_simps)
    finally show ?thesis unfolding x by simp
  qed
  show ?thesis
  proof (cases "x < 2 powi (int a - int b)")
    case True
    then have e: "exponent x = int a - int b - 1"
      by (simp add: exponent_def pq a_def b_def)
    show ?thesis unfolding e using True lower km by simp
  next
    case False
    then have e: "exponent x = int a - int b"
      by (simp add: exponent_def pq a_def b_def)
    show ?thesis unfolding e using False upper kp by simp
  qed
qed

lemma round_positive_error:
  assumes "0 < x"
  shows "\<bar>round_positive x - x\<bar> \<le> x * unit_roundoff"
proof -
  define s where "s = exponent x - 52"
  define y where "y = x / 2 powi s"
  have spos: "(0::rat) < 2 powi s" by simp
  have xy: "x = y * 2 powi s" unfolding y_def by simp
  have rp: "round_positive x = of_int (round_half_even y) * 2 powi s"
    by (simp add: round_positive_def s_def y_def Let_def)
  have "(of_int (round_half_even y) - y) * 2 powi s
      = of_int (round_half_even y) * 2 powi s - y * 2 powi s"
    by (simp add: algebra_simps)
  also have "\<dots> = round_positive x - x"
    by (simp only: rp xy[symmetric])
  finally have "round_positive x - x = (of_int (round_half_even y) - y) * 2 powi s"
    by simp
  then have "\<bar>round_positive x - x\<bar> = \<bar>of_int (round_half_even y) - y\<bar> * 2 powi s"
    by (simp add: abs_mult)
  also have "\<dots> \<le> 1 / 2 * 2 powi s"
    by (rule mult_right_mono[OF round_half_even_error]) simp
  also have "\<dots> \<le> x * unit_roundoff"
  proof -
    have "(2::rat) powi s = 2 powi (exponent x) / 2 ^ 52"
      unfolding s_def by (simp add: power_int_diff)
    also have "\<dots> \<le> x / 2 ^ 52"
      using exponent_bounds[OF assms] by (simp add: divide_right_mono)
    finally show ?thesis by (simp add: unit_roundoff_def)
  qed
  finally show ?thesis .
qed

lemma fl_bounds:
  assumes "0 \<le> x"
  shows "x * (1 - unit_roundoff) \<le> fl x \<and> fl x \<le> x * (1 + unit_roundoff)"
proof (cases "x = 0")
  case True
  then show ?thesis by (simp add: fl_def)
next
  case False
  with assms have pos: "0 < x" by simp
  then have "fl x = round_positive x" by (simp add: fl_def)
  with round_positive_error[OF pos] show ?thesis
    by (simp add: abs_le_iff algebra_simps)
qed

section \<open>Properties of the relevance scorer\<close>

lemma roundoff_facts:
  "0 < 1 - unit_roundoff" "1 - unit_roundoff \<le> 1" "1 \<le> 1 + unit_roundoff"
  "0 < 1 + unit_roundoff"
  by (simp_all add: unit_roundoff_def)

lemma fl_nonneg: "0 \<le> x \<Longrightarrow> 0 \<le> fl x"
proof -
  assume x: "0 \<le> x"
  have "0 \<le> x * (1 - unit_roundoff)"
    using x roundoff_facts(1) by simp
  with fl_bounds[OF x] show ?thesis by linarith
qed

lemma accumulate_lower:
  fixes a :: rat
  assumes a: "0 < a" "a \<le> 1" and k: "1 \<le> k" and t: "0 \<le> t"
    and acc: "a ^ k * A \<le> acc" and tf: "t * a \<le> tf" and r: "(acc + tf) * a \<le> acc'"
  shows "a ^ Suc k * (A + t) \<le> acc'"
proof -
  have p: "a ^ Suc k \<le> a ^ 2"
    using a k by (intro power_decreasing) simp_all
  have "a ^ Suc k * (A + t) = a * (a ^ k * A) + a ^ Suc k * t"
    by (simp add: algebra_simps)
  also have "\<dots> \<le> a * acc + a ^ 2 * t"
  proof -
    have "a * (a ^ k * A) \<le> a * acc" using acc a(1) by (intro mult_left_mono) simp_all
    moreover have "a ^ Suc k * t \<le> a ^ 2 * t" by (rule mult_right_mono[OF p t])
    ultimately show ?thesis by (rule add_mono)
  qed
  also have "\<dots> = a * acc + a * (t * a)"
    by (simp add: power2_eq_square algebra_simps)
  also have "\<dots> \<le> a * acc + a * tf"
    using tf a(1) by (intro add_mono mult_left_mono) simp_all
  also have "\<dots> = (acc + tf) * a"
    by (simp add: algebra_simps)
  also note r
  finally show ?thesis .
qed

lemma accumulate_upper:
  fixes b :: rat
  assumes b: "1 \<le> b" and k: "1 \<le> k" and t: "0 \<le> t"
    and acc: "acc \<le> b ^ k * A" and tf: "tf \<le> t * b" and r: "acc' \<le> (acc + tf) * b"
  shows "acc' \<le> b ^ Suc k * (A + t)"
proof -
  have b0: "0 \<le> b" using b by simp
  have p: "b ^ 2 \<le> b ^ Suc k"
    using b k by (intro power_increasing) simp_all
  note r
  also have "(acc + tf) * b = b * acc + b * tf"
    by (simp add: algebra_simps)
  also have "\<dots> \<le> b * (b ^ k * A) + b * (t * b)"
    using acc tf b0 by (intro add_mono mult_left_mono) simp_all
  also have "\<dots> = b ^ Suc k * A + b ^ 2 * t"
    by (simp add: power2_eq_square algebra_simps)
  also have "\<dots> \<le> b ^ Suc k * A + b ^ Suc k * t"
    using mult_right_mono[OF p t] by simp
  also have "\<dots> = b ^ Suc k * (A + t)"
    by (simp add: algebra_simps)
  finally show ?thesis .
qed

lemma tf_loop_bounds:
  assumes "1 \<le> k" and "0 \<le> A"
    and "(1 - unit_roundoff) ^ k * A \<le> acc" and "acc \<le> (1 + unit_roundoff) ^ k * A"
  shows "(1 - unit_roundoff) ^ (k + length ws)
            * (A + sum_list (map (\<lambda>w. of_nat (get0 freq w) / of_nat n) ws))
           \<le> tf_loop freq n acc ws
       \<and> tf_loop freq n acc ws
           \<le> (1 + unit_roundoff) ^ (k + length ws)
               * (A + sum_list (map (\<lambda>w. of_nat (get0 freq w) / of_nat n) ws))"
  using assms
proof (induction ws arbitrary: k A acc)
  case Nil
  then show ?case by simp
next
  case (Cons w ws)
  define t :: rat where "t = of_nat (get0 freq w) / of_nat n"
  define tf where "tf = fl t"
  define acc' where "acc' = (if tf > 0 then fl (acc + tf) else acc)"
  have t0: "0 \<le> t" unfolding t_def by simp
  have tfb: "t * (1 - unit_roundoff) \<le> tf" "tf \<le> t * (1 + unit_roundoff)"
    unfolding tf_def using fl_bounds[OF t0] by simp_all
  have tf0: "0 \<le> tf" unfolding tf_def by (rule fl_nonneg[OF t0])
  have acc0: "0 \<le> acc"
  proof -
    have "0 \<le> (1 - unit_roundoff) ^ k * A"
      using Cons.prems(2) roundoff_facts(1) by simp
    with Cons.prems(3) show ?thesis by linarith
  qed
  have step: "tf_loop freq n acc (w # ws) = tf_loop freq n acc' ws"
    by (simp add: Let_def t_def tf_def acc'_def)
  have lo: "(1 - unit_roundoff) ^ Suc k * (A + t) \<le> acc'"
  proof (cases "tf > 0")
    case True
    have s0: "0 \<le> acc + tf" using acc0 tf0 by simp
    have "(acc + tf) * (1 - unit_roundoff) \<le> acc'"
      using True fl_bounds[OF s0] by (simp add: acc'_def)
    then show ?thesis
      by (rule accumulate_lower[OF roundoff_facts(1,2) Cons.prems(1) t0 Cons.prems(3) tfb(1)])
  next
    case False
    with tf0 have z: "tf = 0" by simp
    have "t * (1 - unit_roundoff) \<le> 0" using tfb(1) z by simp
    then have "t \<le> 0" using roundoff_facts(1) by (simp add: mult_le_0_iff)
    with t0 have tz: "t = 0" by simp
    have "(1 - unit_roundoff) ^ Suc k * A \<le> (1 - unit_roundoff) ^ k * A"
      using roundoff_facts(1,2) Cons.prems(2)
      by (intro mult_right_mono power_decreasing) simp_all
    with Cons.prems(3) show ?thesis using False by (simp add: acc'_def tz)
  qed
  have hi: "acc' \<le> (1 + unit_roundoff) ^ Suc k * (A + t)"
  proof (cases "tf > 0")
    case True
    have s0: "0 \<le> acc + tf" using acc0 tf0 by simp
    have "acc' \<le> (acc + tf) * (1 + unit_roundoff)"
      using True fl_bounds[OF s0] by (simp add: acc'_def)
    then show ?thesis
      by (rule accumulate_upper[OF roundoff_facts(3) Cons.prems(1) t0 Cons.prems(4) tfb(2)])
  next
    case False
    with tf0 have z: "tf = 0" by simp
    have "t * (1 - unit_roundoff) \<le> 0" using tfb(1) z by simp
    then have "t \<le> 0" using roundoff_facts(1) by (simp add: mult_le_0_iff)
    with t0 have tz: "t = 0" by simp
    have "(1 + unit_roundoff) ^ k * A \<le> (1 + unit_roundoff) ^ Suc k * A"
      using roundoff_facts(3) Cons.prems(2)
      by (intro mult_right_mono power_increasing) simp_all
    with Cons.prems(4) show ?thesis using False by (simp add: acc'_def tz)
  qed
  have At: "0 \<le> A + t" using Cons.prems(2) t0 by simp
  have "1 \<le> Suc k" by simp
  from Cons.IH[OF this At lo hi] show ?case
    unfolding step by (simp add: t_def add.assoc)
qed

lemma get0_counter_add: "get0 (counter_add m ws) w = get0 m w + count_list ws w"
  by (induction ws arbitrary: m) (auto simp: get0_def split: option.splits)

lemma get0_Counter: "get0 (Counter ws) w = count_list ws w"
  by (simp add: Counter_def get0_counter_add) (simp add: get0_def)

lemma split_acc_space:
  "is_space c \<Longrightarrow> split_acc cur (xs @ c # ys) = split_acc cur xs @ split_acc [] ys"
  by (induction xs arbitrary: cur) auto

lemma preprocess_append:
  "preprocess_text (doc @ '' '' @ t) = preprocess_text doc @ preprocess_text t"
proof -
  have sp: "is_space (sub_char (lower_char CHR '' ''))"
    by (simp add: is_space_def sub_char_def lower_char_def is_upper_def)
  show ?thesis
    using split_acc_space[OF sp, of "[]" "map sub_char (lower doc)" "map sub_char (lower t)"]
    by (simp add: preprocess_text_def split_def lower_def)
qed

lemma sum_count_distinct:
  assumes "distinct qs"
  shows "sum_list (map (count_list d) qs) \<le> length d"
proof -
  have "sum_list (map (count_list d) qs) = sum (count_list d) (set qs)"
    using assms by (simp add: sum_list_distinct_conv_sum_set)
  also have "\<dots> \<le> sum (count_list d) (set qs \<union> set d)"
    by (rule sum_mono2) auto
  also have "\<dots> = length d"
    by (rule sum_count_set) auto
  finally show ?thesis .
qed

lemma tf_sum_div:
  "tf_sum qs d = of_nat (sum_list (map (count_list d) qs)) / of_nat (length d)"
  unfolding tf_sum_def by (induction qs) (simp_all add: add_divide_distrib)

lemma sum_count_snoc_other:
  "t \<notin> set qs \<Longrightarrow> sum_list (map (count_list (d @ [t])) qs) = sum_list (map (count_list d) qs)"
  by (induction qs) auto

lemma sum_count_snoc:
  assumes "distinct qs" "t \<in> set qs"
  shows "sum_list (map (count_list (d @ [t])) qs) = sum_list (map (count_list d) qs) + 1"
  using assms by (induction qs) (auto simp: sum_count_snoc_other)

lemma hits_mono:
  "length (filter (\<lambda>w. w \<in> set d) qs) \<le> length (filter (\<lambda>w. w \<in> set (d @ [t])) qs)"
  by (induction qs) auto

lemma occurrence_score_nonneg: "0 \<le> occurrence_score qs doc"
proof -
  have "0 \<le> tf_sum qs d" for d
    unfolding tf_sum_def by (rule sum_list_nonneg) auto
  then show ?thesis
    by (simp add: occurrence_score_def Let_def)
qed

lemma occurrence_score_snoc:
  assumes dq: "distinct qs" and tq: "t \<in> set qs"
    and d': "preprocess_text doc' = preprocess_text doc @ [t]"
  shows "occurrence_score qs doc \<le> occurrence_score qs doc'"
proof (cases "preprocess_text doc = []")
  case True
  then have "occurrence_score qs doc = 0"
    by (simp add: occurrence_score_def)
  then show ?thesis
    by (simp add: occurrence_score_nonneg)
next
  case False
  define d where "d = preprocess_text doc"
  define S where "S = sum_list (map (count_list d) qs)"
  define m where "m = length (filter (\<lambda>w. w \<in> set d) qs)"
  define m' where "m' = length (filter (\<lambda>w. w \<in> set (d @ [t])) qs)"
  define n where "n = length d"
  have npos: "0 < n" using False by (simp add: n_def d_def)
  have Sn: "S \<le> n" unfolding S_def n_def by (rule sum_count_distinct[OF dq])
  have mm: "m \<le> m'" unfolding m_def m'_def by (rule hits_mono)
  have old: "occurrence_score qs doc = (of_nat S / of_nat n) * (of_nat m / of_nat (length qs))"
    using False by (simp add: occurrence_score_def Let_def tf_sum_div S_def m_def n_def d_def)
  have new: "occurrence_score qs doc' =
      (of_nat (S + 1) / of_nat (n + 1)) * (of_nat m' / of_nat (length qs))"
    by (simp add: occurrence_score_def Let_def tf_sum_div d' sum_count_snoc[OF dq tq]
        S_def m'_def n_def d_def)
  have "S * (n + 1) \<le> (S + 1) * n" using Sn by simp
  then have "(of_nat (S * (n + 1)) :: rat) \<le> of_nat ((S + 1) * n)"
    by (rule of_nat_mono)
  then have frac: "(of_nat S / of_nat n :: rat) \<le> of_nat (S + 1) / of_nat (n + 1)"
    using npos by (simp add: field_simps)
  have cov: "(of_nat m / of_nat (length qs) :: rat) \<le> of_nat m' / of_nat (length qs)"
    using mm by (simp add: divide_right_mono)
  have "(of_nat S / of_nat n) * (of_nat m / of_nat (length qs))
      \<le> (of_nat (S + 1) / of_nat (n + 1)) * (of_nat m' / of_nat (length qs) :: rat)"
    by (rule mult_mono[OF frac cov]) simp_all
  then show ?thesis by (simp only: old new)
qed


lemma tf_loop_Counter_bounds:
  "(1 - unit_roundoff) ^ Suc (length qs) * tf_sum qs d \<le> tf_loop (Counter d) (length d) 0 qs
   \<and> tf_loop (Counter d) (length d) 0 qs \<le> (1 + unit_roundoff) ^ Suc (length qs) * tf_sum qs d"
  using tf_loop_bounds[of 1 0 0 qs "Counter d" "length d"]
  by (simp add: get0_Counter tf_sum_def)

lemma tf_sum_nonneg: "0 \<le> tf_sum qs d"
  unfolding tf_sum_def by (rule sum_list_nonneg) auto

lemma rounded_quotient_bounds:
  fixes a b :: rat
  assumes a: "0 < a" "a \<le> 1" and b: "1 \<le> b" and L: "0 < L" and X: "0 \<le> X"
    and P: "a ^ m * X \<le> P" "P \<le> b ^ m * X"
    and D: "L * a \<le> D" "D \<le> L * b"
    and R: "P / D * a \<le> R" "R \<le> P / D * b"
  shows "X / L * (a ^ Suc m / b) \<le> R \<and> R \<le> X / L * (b ^ Suc m / a)"
proof -
  have b0: "0 < b" using b by simp
  have La: "0 < L * a" using L a(1) by simp
  have D0: "0 < D" using La D(1) by linarith
  have P0: "0 \<le> P"
  proof -
    have "0 \<le> a ^ m * X" using a(1) X by simp
    with P(1) show ?thesis by linarith
  qed
  have lower: "X / L * (a ^ Suc m / b) \<le> R"
  proof -
    have "X / L * (a ^ Suc m / b) = (a ^ m * X) / (L * b) * a"
      using L b0 by (simp add: field_simps)
    also have "\<dots> \<le> P / D * a"
    proof (rule mult_right_mono)
      show "a ^ m * X / (L * b) \<le> P / D"
        using P(1) P0 D(2) D0 by (intro frac_le) simp_all
      show "0 \<le> a" using a(1) by simp
    qed
    also note R(1)
    finally show ?thesis .
  qed
  have upper: "R \<le> X / L * (b ^ Suc m / a)"
  proof -
    note R(2)
    also have "P / D * b \<le> (b ^ m * X) / (L * a) * b"
    proof (rule mult_right_mono)
      show "P / D \<le> b ^ m * X / (L * a)"
        using P(2) P0 D(1) La by (intro frac_le) simp_all
      show "0 \<le> b" using b0 by simp
    qed
    also have "\<dots> = X / L * (b ^ Suc m / a)"
      using L a(1) by (simp add: field_simps)
    finally show ?thesis .
  qed
  from lower upper show ?thesis ..
qed

lemma calculate_tf_idf_empty_document:
  "preprocess_text doc = [] \<Longrightarrow> calculate_tf_idf qs doc = Inr 0"
  by (simp add: calculate_tf_idf_def)

lemma calculate_tf_idf_empty_query:
  "preprocess_text doc \<noteq> [] \<Longrightarrow> calculate_tf_idf [] doc = Inl ZeroDivisionError"
  by (simp add: calculate_tf_idf_def Let_def)

lemma calculate_tf_idf_bounds:
  assumes qs: "qs \<noteq> []"
  shows "\<exists>r. calculate_tf_idf qs doc = Inr r
       \<and> occurrence_score qs doc * rounding_lo (length qs) \<le> r
       \<and> r \<le> occurrence_score qs doc * rounding_hi (length qs)"
proof (cases "preprocess_text doc = []")
  case True
  then show ?thesis
    by (simp add: calculate_tf_idf_empty_document occurrence_score_def)
next
  case False
  define d where "d = preprocess_text doc"
  define h where "h = length (filter (\<lambda>w. w \<in> set d) qs)"
  define T where "T = tf_loop (Counter d) (length d) 0 qs"
  define H where "H = fl (of_nat h)"
  define P where "P = fl (T * H)"
  define D where "D = fl (of_nat (length qs))"
  define R where "R = fl (P / D)"
  define X where "X = tf_sum qs d * of_nat h"
  let ?a = "1 - unit_roundoff" and ?b = "1 + unit_roundoff"
  let ?m = "length qs + 3"
  have calc: "calculate_tf_idf qs doc = Inr R"
    using False qs
    by (simp add: calculate_tf_idf_def Let_def R_def P_def D_def H_def T_def h_def d_def)
  have E: "occurrence_score qs doc = X / of_nat (length qs)"
    using False by (simp add: occurrence_score_def Let_def X_def h_def d_def)
  have A0: "0 \<le> tf_sum qs d" by (rule tf_sum_nonneg)
  have Tb: "?a ^ Suc (length qs) * tf_sum qs d \<le> T" "T \<le> ?b ^ Suc (length qs) * tf_sum qs d"
    unfolding T_def using tf_loop_Counter_bounds[of qs d] by simp_all
  have T0: "0 \<le> T"
  proof -
    have "0 \<le> ?a ^ Suc (length qs) * tf_sum qs d"
      using A0 roundoff_facts(1) by (intro mult_nonneg_nonneg) simp_all
    with Tb(1) show ?thesis by linarith
  qed
  have h0: "(0::rat) \<le> of_nat h" by simp
  have Hb: "of_nat h * ?a \<le> H" "H \<le> of_nat h * ?b"
    unfolding H_def using fl_bounds[OF h0] by simp_all
  have H0: "0 \<le> H" unfolding H_def by (rule fl_nonneg[OF h0])
  have TH0: "0 \<le> T * H" using T0 H0 by simp
  have THl: "?a ^ Suc (length qs) * tf_sum qs d * (of_nat h * ?a) \<le> T * H"
    using Tb(1) Hb(1) T0 roundoff_facts(1) by (intro mult_mono) simp_all
  have THu: "T * H \<le> ?b ^ Suc (length qs) * tf_sum qs d * (of_nat h * ?b)"
    using Tb(2) Hb(2) H0 A0 roundoff_facts(4) by (intro mult_mono) simp_all
  have Pb: "T * H * ?a \<le> P" "P \<le> T * H * ?b"
    unfolding P_def using fl_bounds[OF TH0] by simp_all
  have Pl: "?a ^ ?m * X \<le> P"
  proof -
    have "?a ^ ?m * X = ?a ^ Suc (length qs) * tf_sum qs d * (of_nat h * ?a) * ?a"
      by (simp add: X_def algebra_simps power_add power3_eq_cube)
    also have "\<dots> \<le> T * H * ?a"
      using THl roundoff_facts(1) by (intro mult_right_mono) simp_all
    also note Pb(1)
    finally show ?thesis .
  qed
  have Pu: "P \<le> ?b ^ ?m * X"
  proof -
    note Pb(2)
    also have "T * H * ?b \<le> ?b ^ Suc (length qs) * tf_sum qs d * (of_nat h * ?b) * ?b"
      using THu roundoff_facts(4) by (intro mult_right_mono) simp_all
    also have "\<dots> = ?b ^ ?m * X"
      by (simp add: X_def algebra_simps power_add power3_eq_cube)
    finally show ?thesis .
  qed
  have P0: "0 \<le> P" unfolding P_def by (rule fl_nonneg[OF TH0])
  have L0: "(0::rat) < of_nat (length qs)" using qs by simp
  have Db: "of_nat (length qs) * ?a \<le> D" "D \<le> of_nat (length qs) * ?b"
    unfolding D_def using fl_bounds[of "of_nat (length qs)"] by simp_all
  have D0: "0 < D"
  proof -
    have "0 < of_nat (length qs) * ?a" using L0 roundoff_facts(1) by simp
    with Db(1) show ?thesis by linarith
  qed
  have Q0: "0 \<le> P / D" using P0 D0 by simp
  have Rb: "P / D * ?a \<le> R" "R \<le> P / D * ?b"
    unfolding R_def using fl_bounds[OF Q0] by simp_all
  have X0: "0 \<le> X" unfolding X_def using A0 by simp
  have e: "Suc (length qs + 3) = length qs + 4" by simp
  from rounded_quotient_bounds[OF roundoff_facts(1,2,3) L0 X0 Pl Pu Db Rb]
  have "X / of_nat (length qs) * (?a ^ (length qs + 4) / ?b) \<le> R"
    "R \<le> X / of_nat (length qs) * (?b ^ (length qs + 4) / ?a)"
    by (simp_all only: e)
  then show ?thesis
    unfolding calc E rounding_lo_def rounding_hi_def by blast
qed


lemma rounding_factors_pos: "0 < rounding_lo m" "0 < rounding_hi m"
  using roundoff_facts by (simp_all add: rounding_lo_def rounding_hi_def)

lemma three_tokens_six_words:
  "calculate_tf_idf [''computer'', ''science'', ''department'']
      ''computer science science science department computer''
     = Inr (9007199254740991 / 9007199254740992)"
  by code_simp

lemma three_tokens_five_words:
  "calculate_tf_idf [''computer'', ''science'', ''department'']
      ''computer science science science department'' = Inr 1"
  by code_simp

lemma repeated_token_one_word:
  "calculate_tf_idf [''computer'', ''computer'', ''computer'', ''science''] ''computer''
     = Inr (9 / 4)"
  by code_simp

lemma repeated_token_two_words:
  "calculate_tf_idf [''computer'', ''computer'', ''computer'', ''science''] ''computer science''
     = Inr 2"
  by code_simp

lemma three_tokens_exact:
  "spec_score [''computer'', ''science'', ''department'']
      ''computer science science science department computer'' = 1"
  by code_simp

text \<open>
  Claim C3, as the code has it.  Whenever \<^verbatim>\<open>calculate_tf_idf\<close> returns (the query
  token list is not empty, or the document has no token), the score is 0 for a
  document without tokens, and otherwise it is, up to double-precision rounding,
  the term-frequency sum times the number of query tokens present in the
  document, each occurrence in the query counted, divided by the number of query
  tokens: the score lies between the exact value of that formula times
  \<open>rounding_lo\<close> and times \<open>rounding_hi\<close>.  For pairwise distinct query tokens the
  exact value is the formula of the specification.
\<close>

theorem calculate_tf_idf_rounds_occurrence_formula:
  assumes "query_words \<noteq> [] \<or> preprocess_text document = []"
  shows "\<exists>r. calculate_tf_idf query_words document = Inr r
       \<and> occurrence_score query_words document * rounding_lo (length query_words) \<le> r
       \<and> r \<le> occurrence_score query_words document * rounding_hi (length query_words)
       \<and> (preprocess_text document = [] \<longrightarrow> r = 0)
       \<and> (distinct query_words \<longrightarrow>
            occurrence_score query_words document = spec_score query_words document)"
proof -
  have d: "occurrence_score query_words document = spec_score query_words document"
    if "distinct query_words"
    using that by (simp add: occurrence_score_def spec_score_def Let_def distinct_remdups_id)
  show ?thesis
  proof (cases "query_words = []")
    case True
    with assms have e: "preprocess_text document = []" by simp
    show ?thesis
      by (rule exI[of _ 0])
         (simp add: calculate_tf_idf_empty_document[OF e] occurrence_score_def spec_score_def e)
  next
    case False
    from calculate_tf_idf_bounds[OF False, of document] obtain r where
      r: "calculate_tf_idf query_words document = Inr r"
        "occurrence_score query_words document * rounding_lo (length query_words) \<le> r"
        "r \<le> occurrence_score query_words document * rounding_hi (length query_words)"
      by blast
    have z: "r = 0" if e: "preprocess_text document = []"
      using r(1) calculate_tf_idf_empty_document[OF e, of query_words] by simp
    from r z d show ?thesis by blast
  qed
qed

theorem calculate_tf_idf_rounds_occurrence_formula_witness:
  "[''computer'', ''science'', ''department''] \<noteq> []
   \<and> distinct [''computer'', ''science'', ''department'']
   \<and> calculate_tf_idf [''computer'', ''science'', ''department'']
        ''computer science science science department computer''
       = Inr (9007199254740991 / 9007199254740992)
   \<and> spec_score [''computer'', ''science'', ''department'']
        ''computer science science science department computer'' = 1
   \<and> occurrence_score [''computer'', ''science'', ''department'']
        ''computer science science science department computer'' = 1
   \<and> 1 * rounding_lo 3 \<le> 9007199254740991 / 9007199254740992
   \<and> 9007199254740991 / 9007199254740992 \<le> 1 * rounding_hi 3"
proof -
  let ?q = "[''computer'', ''science'', ''department'']"
  let ?d = "''computer science science science department computer''"
  have ne: "?q \<noteq> []" by simp
  then have h: "?q \<noteq> [] \<or> preprocess_text ?d = []" ..
  have dq: "distinct ?q" by simp
  from calculate_tf_idf_rounds_occurrence_formula[OF h] obtain r where
    r: "calculate_tf_idf ?q ?d = Inr r"
      "occurrence_score ?q ?d * rounding_lo (length ?q) \<le> r"
      "r \<le> occurrence_score ?q ?d * rounding_hi (length ?q)"
      "distinct ?q \<longrightarrow> occurrence_score ?q ?d = spec_score ?q ?d"
    by blast
  from r(1) have rv: "r = 9007199254740991 / 9007199254740992"
    by (simp only: three_tokens_six_words sum.inject)
  from r(4) dq have o: "occurrence_score ?q ?d = 1"
    by (simp only: three_tokens_exact)
  have len: "length ?q = 3" by simp
  have lo: "1 * rounding_lo 3 \<le> 9007199254740991 / 9007199254740992"
    using r(2) unfolding o rv len .
  have hi: "9007199254740991 / 9007199254740992 \<le> 1 * rounding_hi 3"
    using r(3) unfolding o rv len .
  show ?thesis
    by (intro conjI) (rule ne dq three_tokens_six_words three_tokens_exact o lo hi)+
qed

text \<open>
  Claim C3 as stated fails in two ways.  When a query token is repeated, the code
  counts both occurrences in the coverage factor, the specification counts the
  token once.  And the code computes in double precision: for three distinct
  query tokens on a document of six words the specification's formula is 1 and
  the code returns the double below 1.
\<close>

theorem calculate_tf_idf_spec_formula_counterexample:
  "calculate_tf_idf [''computer'', ''computer''] ''computer'' = Inr 2
   \<and> spec_score [''computer'', ''computer''] ''computer'' = 1
   \<and> calculate_tf_idf [''computer'', ''science'', ''department'']
        ''computer science science science department computer''
       = Inr (9007199254740991 / 9007199254740992)
   \<and> spec_score [''computer'', ''science'', ''department'']
        ''computer science science science department computer'' = 1"
proof -
  have a: "calculate_tf_idf [''computer'', ''computer''] ''computer'' = Inr 2" by code_simp
  have b: "spec_score [''computer'', ''computer''] ''computer'' = 1" by code_simp
  show ?thesis
    by (intro conjI) (rule a b three_tokens_six_words three_tokens_exact)+
qed

text \<open>
  Claim C6, for pairwise distinct query tokens and up to rounding.  Appending one
  more occurrence of a query token that survives preprocessing to the document
  never decreases the exact value of the score formula; both scores are
  returned, and the new one is not below the old one by more than the rounding
  factors.
\<close>

theorem score_monotone_up_to_rounding:
  assumes "distinct query_words" and "t \<in> set query_words" and "preprocess_text t = [t]"
  shows "\<exists>a b. calculate_tf_idf query_words document = Inr a
             \<and> calculate_tf_idf query_words (document @ '' '' @ t) = Inr b
             \<and> a * rounding_lo (length query_words) \<le> b * rounding_hi (length query_words)
             \<and> occurrence_score query_words document
                 \<le> occurrence_score query_words (document @ '' '' @ t)"
proof -
  let ?L = "length query_words"
  let ?E = "occurrence_score query_words document"
  let ?E' = "occurrence_score query_words (document @ '' '' @ t)"
  have ne: "query_words \<noteq> []" using assms(2) by auto
  have d': "preprocess_text (document @ '' '' @ t) = preprocess_text document @ [t]"
    by (simp only: preprocess_append assms(3))
  have mono: "?E \<le> ?E'" by (rule occurrence_score_snoc[OF assms(1,2) d'])
  from calculate_tf_idf_bounds[OF ne, of document] obtain a where
    a: "calculate_tf_idf query_words document = Inr a" "a \<le> ?E * rounding_hi ?L"
    by blast
  from calculate_tf_idf_bounds[OF ne, of "document @ '' '' @ t"] obtain b where
    b: "calculate_tf_idf query_words (document @ '' '' @ t) = Inr b"
      "?E' * rounding_lo ?L \<le> b"
    by blast
  have lo: "0 \<le> rounding_lo ?L" and hi: "0 \<le> rounding_hi ?L"
    using rounding_factors_pos[of ?L] by simp_all
  have "a * rounding_lo ?L \<le> ?E * rounding_hi ?L * rounding_lo ?L"
    by (rule mult_right_mono[OF a(2) lo])
  also have "\<dots> = ?E * rounding_lo ?L * rounding_hi ?L" by simp
  also have "\<dots> \<le> ?E' * rounding_lo ?L * rounding_hi ?L"
    by (intro mult_right_mono mono lo hi)
  also have "\<dots> \<le> b * rounding_hi ?L"
    by (rule mult_right_mono[OF b(2) hi])
  finally have "a * rounding_lo ?L \<le> b * rounding_hi ?L" .
  with a(1) b(1) mono show ?thesis by blast
qed

theorem score_monotone_up_to_rounding_witness:
  "distinct [''computer'', ''science'', ''department'']
   \<and> ''computer'' \<in> set [''computer'', ''science'', ''department'']
   \<and> preprocess_text ''computer'' = [''computer'']
   \<and> calculate_tf_idf [''computer'', ''science'', ''department'']
        ''computer science science science department'' = Inr 1
   \<and> calculate_tf_idf [''computer'', ''science'', ''department'']
        (''computer science science science department'' @ '' '' @ ''computer'')
       = Inr (9007199254740991 / 9007199254740992)
   \<and> 1 * rounding_lo 3 \<le> 9007199254740991 / 9007199254740992 * rounding_hi 3"
proof -
  let ?q = "[''computer'', ''science'', ''department'']"
  let ?d = "''computer science science science department''"
  have h1: "distinct ?q" by simp
  have h2: "''computer'' \<in> set ?q" by simp
  have h3: "preprocess_text ''computer'' = [''computer'']" by code_simp
  have six: "calculate_tf_idf ?q (?d @ '' '' @ ''computer'')
      = Inr (9007199254740991 / 9007199254740992)"
    using three_tokens_six_words by simp
  from score_monotone_up_to_rounding[OF h1 h2 h3, of ?d] obtain a b where
    ab: "calculate_tf_idf ?q ?d = Inr a"
      "calculate_tf_idf ?q (?d @ '' '' @ ''computer'') = Inr b"
      "a * rounding_lo (length ?q) \<le> b * rounding_hi (length ?q)"
    by blast
  from ab(1) have av: "a = 1" by (simp only: three_tokens_five_words sum.inject)
  from ab(2) have bv: "b = 9007199254740991 / 9007199254740992"
    by (simp only: six sum.inject)
  have len: "length ?q = 3" by simp
  have r: "1 * rounding_lo 3 \<le> 9007199254740991 / 9007199254740992 * rounding_hi 3"
    using ab(3) unfolding av bv len .
  show ?thesis
    by (intro conjI) (rule h1 h2 h3 three_tokens_five_words six r)+
qed

text \<open>
  Claim C6 as stated fails in two ways.  For a query that repeats a token: the
  query "computer computer computer science" scores the document "computer" at
  9/4 and the document "computer science" at 2.  And by rounding, for distinct
  query tokens: the query tokens computer, science, department score the
  document "computer science science science department" at 1 and the same
  document with "computer" appended at the double below 1.
\<close>

theorem score_monotone_counterexample:
  "preprocess_text ''computer computer computer science''
     = [''computer'', ''computer'', ''computer'', ''science'']
   \<and> preprocess_text ''science'' = [''science'']
   \<and> calculate_tf_idf (preprocess_text ''computer computer computer science'') ''computer''
       = Inr (9 / 4)
   \<and> calculate_tf_idf (preprocess_text ''computer computer computer science'')
        (''computer'' @ '' '' @ ''science'') = Inr 2
   \<and> (2 :: rat) < 9 / 4
   \<and> preprocess_text ''computer science department'' = [''computer'', ''science'', ''department'']
   \<and> preprocess_text ''computer'' = [''computer'']
   \<and> calculate_tf_idf (preprocess_text ''computer science department'')
        ''computer science science science department'' = Inr 1
   \<and> calculate_tf_idf (preprocess_text ''computer science department'')
        (''computer science science science department'' @ '' '' @ ''computer'')
       = Inr (9007199254740991 / 9007199254740992)
   \<and> (9007199254740991 / 9007199254740992 :: rat) < 1"
proof -
  have q4: "preprocess_text ''computer computer computer science''
     = [''computer'', ''computer'', ''computer'', ''science'']" by code_simp
  have q3: "preprocess_text ''computer science department''
     = [''computer'', ''science'', ''department'']" by code_simp
  have s: "preprocess_text ''science'' = [''science'']" by code_simp
  have c: "preprocess_text ''computer'' = [''computer'']" by code_simp
  have a1: "calculate_tf_idf (preprocess_text ''computer computer computer science'') ''computer''
       = Inr (9 / 4)"
    by (simp only: q4 repeated_token_one_word)
  have a2: "calculate_tf_idf (preprocess_text ''computer computer computer science'')
        (''computer'' @ '' '' @ ''science'') = Inr 2"
    using repeated_token_two_words by (simp add: q4)
  have a3: "(2 :: rat) < 9 / 4" by simp
  have b1: "calculate_tf_idf (preprocess_text ''computer science department'')
        ''computer science science science department'' = Inr 1"
    by (simp only: q3 three_tokens_five_words)
  have b2: "calculate_tf_idf (preprocess_text ''computer science department'')
        (''computer science science science department'' @ '' '' @ ''computer'')
       = Inr (9007199254740991 / 9007199254740992)"
    using three_tokens_six_words by (simp add: q3)
  have b3: "(9007199254740991 / 9007199254740992 :: rat) < 1" by simp
  show ?thesis
    by (intro conjI) (rule q4 s a1 a2 a3 q3 c b1 b2 b3)+
qed

section \<open>Properties of the intent classifier\<close>

lemma max_loop_first:
  "\<exists>pre post. b # xs = pre @ max_loop f b xs # post
      \<and> (\<forall>x\<in>set pre. f x < f (max_loop f b xs))
      \<and> (\<forall>x\<in>set post. f x \<le> f (max_loop f b xs))"
proof (induction xs arbitrary: b)
  case Nil
  show ?case by (rule exI[of _ "[]"], rule exI[of _ "[]"]) simp
next
  case (Cons x xs)
  show ?case
  proof (cases "f b < f x")
    case True
    from Cons.IH[of x] obtain pre post where
      s: "x # xs = pre @ max_loop f x xs # post"
      and lt: "\<forall>y\<in>set pre. f y < f (max_loop f x xs)"
      and le: "\<forall>y\<in>set post. f y \<le> f (max_loop f x xs)" by blast
    have "x \<in> set (pre @ max_loop f x xs # post)" using s by (metis list.set_intros(1))
    then have "f x \<le> f (max_loop f x xs)" using lt le by (auto simp: less_imp_le)
    then have fb: "f b < f (max_loop f x xs)" using True by simp
    have "b # x # xs = (b # pre) @ max_loop f x xs # post" using s by simp
    moreover have "\<forall>y\<in>set (b # pre). f y < f (max_loop f x xs)" using lt fb by simp
    moreover have r: "max_loop f b (x # xs) = max_loop f x xs" using True by simp
    ultimately show ?thesis unfolding r using le
      by - (rule exI[of _ "b # pre"], rule exI[of _ post], blast)
  next
    case False
    from Cons.IH[of b] obtain pre post where
      s: "b # xs = pre @ max_loop f b xs # post"
      and lt: "\<forall>y\<in>set pre. f y < f (max_loop f b xs)"
      and le: "\<forall>y\<in>set post. f y \<le> f (max_loop f b xs)" by blast
    have r: "max_loop f b (x # xs) = max_loop f b xs" using False by simp
    show ?thesis
    proof (cases pre)
      case Nil
      from s Nil have b: "b = max_loop f b xs" and p: "post = xs" by auto
      have "b # x # xs = [] @ max_loop f b xs # (x # xs)" using b by simp
      moreover have "\<forall>y\<in>set (x # xs). f y \<le> f (max_loop f b xs)"
        using le p False b by (metis not_less set_ConsD)
      ultimately show ?thesis unfolding r
        by - (rule exI[of _ "[]"], rule exI[of _ "x # xs"], simp)
    next
      case (Cons p pre')
      from s Cons have pb: "p = b" and xs: "xs = pre' @ max_loop f b xs # post" by auto
      have fb: "f b < f (max_loop f b xs)" using lt Cons pb by simp
      have "b # x # xs = (b # x # pre') @ max_loop f b xs # post" using xs by simp
      moreover have "\<forall>y\<in>set (b # x # pre'). f y < f (max_loop f b xs)"
        using lt Cons pb fb False by auto
      ultimately show ?thesis unfolding r using le
        by - (rule exI[of _ "b # x # pre'"], rule exI[of _ post], blast)
    qed
  qed
qed


lemma collect_scores_filter:
  "collect_scores ql ps =
     filter (\<lambda>(c, s). s > 0) (map (\<lambda>(c, kw). (c, keyword_score kw ql)) ps)"
  by (induction ps) (auto simp: Let_def)

lemma hits_table:
  "map (\<lambda>(c, kw). (c, keyword_score kw (lower query))) intent_patterns
     = map (\<lambda>c. (c, hits c query)) category_order"
  by (simp add: intent_patterns_def category_order_def hits_def keyword_score_def)

lemma collect_scores_hits:
  "collect_scores (lower query) intent_patterns
     = map (\<lambda>c. (c, hits c query)) (filter (\<lambda>c. hits c query > 0) category_order)"
  by (simp only: collect_scores_filter hits_table filter_map) (simp add: comp_def)

lemma scores_get_hits:
  "c \<in> set cs \<Longrightarrow> scores_get (map (\<lambda>c. (c, h c)) cs) c = h c"
  by (induction cs) (auto simp: scores_get_def)

lemma max_loop_cong:
  "(\<And>x. x \<in> set (b # xs) \<Longrightarrow> f x = g x) \<Longrightarrow> max_loop f b xs = max_loop g b xs"
  by (induction xs arbitrary: b) auto

lemma category_order_all: "c \<in> set category_order"
  by (cases c) (simp_all add: category_order_def)

lemma category_order_sorted: "sorted_wrt (\<lambda>a b. rank a < rank b) category_order"
  by (simp add: category_order_def)

lemma detect_intent_filter:
  "detect_intent query =
     (case filter (\<lambda>c. hits c query > 0) category_order of
        [] \<Rightarrow> general
      | x # xs \<Rightarrow> max_loop (\<lambda>c. hits c query) x xs)"
proof (cases "filter (\<lambda>c. hits c query > 0) category_order")
  case Nil
  then show ?thesis
    by (simp add: detect_intent_def Let_def collect_scores_hits)
next
  case (Cons x xs)
  have "max_loop (scores_get (map (\<lambda>c. (c, hits c query)) (x # xs))) x xs
      = max_loop (\<lambda>c. hits c query) x xs"
    by (rule max_loop_cong) (rule scores_get_hits)
  then show ?thesis
    using Cons by (simp add: detect_intent_def Let_def collect_scores_hits comp_def)
qed

text \<open>
  Claim C7.  \<^verbatim>\<open>detect_intent\<close> counts, for each category, the keywords of its list
  that occur as substrings of the lowercased query.  When no keyword of any
  category occurs the result is general.  Otherwise the result has the highest
  count of all categories, and every category earlier in the fixed order
  faculty_info, admissions, departments, notifications, academics, research,
  contact, general has a strictly smaller count: a tie goes to the earliest.
\<close>

theorem detect_intent_highest_count_earliest:
  "((\<forall>c. hits c query = 0) \<longrightarrow> detect_intent query = general) \<and>
   ((\<exists>c. hits c query > 0) \<longrightarrow>
      (\<forall>c. hits c query \<le> hits (detect_intent query) query) \<and>
      (\<forall>c. rank c < rank (detect_intent query) \<longrightarrow>
            hits c query < hits (detect_intent query) query))"
proof (rule conjI; rule impI)
  assume "\<forall>c. hits c query = 0"
  then have "filter (\<lambda>c. hits c query > 0) category_order = []" by simp
  then show "detect_intent query = general" by (simp add: detect_intent_filter)
next
  assume "\<exists>c. hits c query > 0"
  then obtain c0 where "hits c0 query > 0" ..
  then have "c0 \<in> set (filter (\<lambda>c. hits c query > 0) category_order)"
    by (simp add: category_order_all)
  then obtain x xs where fl: "filter (\<lambda>c. hits c query > 0) category_order = x # xs"
    by (cases "filter (\<lambda>c. hits c query > 0) category_order") auto
  define r where "r = max_loop (\<lambda>c. hits c query) x xs"
  have dr: "detect_intent query = r" by (simp add: detect_intent_filter fl r_def)
  from max_loop_first[of x xs "\<lambda>c. hits c query"] obtain pre post where
    sp: "x # xs = pre @ r # post"
    and lt: "\<forall>c\<in>set pre. hits c query < hits r query"
    and le: "\<forall>c\<in>set post. hits c query \<le> hits r query"
    unfolding r_def by blast
  have "r \<in> set (filter (\<lambda>c. hits c query > 0) category_order)"
    unfolding fl sp by simp
  then have rpos: "hits r query > 0" by simp
  have srt: "sorted_wrt (\<lambda>a b. rank a < rank b) (pre @ r # post)"
    using sorted_wrt_filter[OF category_order_sorted, of "\<lambda>c. hits c query > 0"]
    unfolding fl sp .
  have mem: "c \<in> set (pre @ r # post)" if "hits c query > 0" for c
    using that category_order_all[of c] unfolding sp[symmetric] fl[symmetric] by simp
  have A: "hits c query \<le> hits r query" for c
  proof (cases "hits c query > 0")
    case True
    from mem[OF True] lt le show ?thesis by (auto simp: less_imp_le)
  next
    case False
    then show ?thesis by simp
  qed
  have B: "hits c query < hits r query" if rk: "rank c < rank r" for c
  proof (cases "hits c query > 0")
    case True
    have "c \<notin> set post" using srt rk by (auto simp: sorted_wrt_append)
    moreover have "c \<noteq> r" using rk by auto
    ultimately have "c \<in> set pre" using mem[OF True] by auto
    with lt show ?thesis by blast
  next
    case False
    then show ?thesis using rpos by simp
  qed
  show "(\<forall>c. hits c query \<le> hits (detect_intent query) query) \<and>
      (\<forall>c. rank c < rank (detect_intent query) \<longrightarrow>
            hits c query < hits (detect_intent query) query)"
    unfolding dr using A B by blast
qed

theorem detect_intent_highest_count_earliest_witness:
  "hits general ''Tell me about Dr. Ali Khan'' = 2
   \<and> hits faculty_info ''Tell me about Dr. Ali Khan'' = 1
   \<and> rank faculty_info < rank (detect_intent ''Tell me about Dr. Ali Khan'')
   \<and> hits faculty_info ''Tell me about Dr. Ali Khan''
       < hits (detect_intent ''Tell me about Dr. Ali Khan'') ''Tell me about Dr. Ali Khan''
   \<and> hits general ''Tell me about Dr. Ali Khan''
       \<le> hits (detect_intent ''Tell me about Dr. Ali Khan'') ''Tell me about Dr. Ali Khan''
   \<and> (\<forall>c. hits c ''hi'' = 0) \<and> detect_intent ''hi'' = general"
proof -
  have g: "hits general ''Tell me about Dr. Ali Khan'' = 2" by code_simp
  have f: "hits faculty_info ''Tell me about Dr. Ali Khan'' = 1" by code_simp
  have rk: "rank faculty_info < rank (detect_intent ''Tell me about Dr. Ali Khan'')" by code_simp
  have ex: "\<exists>c. hits c ''Tell me about Dr. Ali Khan'' > 0" using f by (intro exI[of _ faculty_info]) simp
  have "list_all (\<lambda>c. hits c ''hi'' = 0) category_order" by code_simp
  then have z: "\<forall>c. hits c ''hi'' = 0"
    using category_order_all by (auto simp: list_all_iff)
  note t = detect_intent_highest_count_earliest[of "''Tell me about Dr. Ali Khan''"]
  from t ex have t1: "\<forall>c. hits c ''Tell me about Dr. Ali Khan''
       \<le> hits (detect_intent ''Tell me about Dr. Ali Khan'') ''Tell me about Dr. Ali Khan''"
    by blast
  from t ex rk have t2: "hits faculty_info ''Tell me about Dr. Ali Khan''
       < hits (detect_intent ''Tell me about Dr. Ali Khan'') ''Tell me about Dr. Ali Khan''"
    by blast
  from detect_intent_highest_count_earliest[of "''hi''"] z have t3: "detect_intent ''hi'' = general" by blast
  show ?thesis
    by (intro conjI) (rule g f rk t2 t1[rule_format] z t3)+
qed

section \<open>Properties of knowledge-base construction\<close>

lemma load_FileNotFound_iff:
  "(\<exists>msg. load_knowledge_base fs data_dir = Inl (FileNotFoundError msg))
     = (fs (db_path data_dir) = None)"
  by (auto simp: load_knowledge_base_def split: option.splits)

text \<open>
  Claim C8.  Constructing the knowledge base fails with \<^verbatim>\<open>FileNotFoundError\<close> if
  and only if the database file does not exist; the message of that error tells
  the caller to run the data scraper first, and no knowledge base is returned.
\<close>

theorem store_absent_iff_no_database_file:
  "((\<exists>msg. init_knowledge_base fs data_dir = Inl (FileNotFoundError msg))
      = (fs (db_path data_dir) = None))
   \<and> (fs (db_path data_dir) = None \<longrightarrow>
        init_knowledge_base fs data_dir
          = Inl (FileNotFoundError (''Knowledge base not found at '' @ db_path data_dir
                   @ ''. Please run data_scraper.py first.''))
        \<and> (\<forall>kbase. init_knowledge_base fs data_dir \<noteq> Inr kbase))"
proof -
  have "(\<exists>msg. init_knowledge_base fs data_dir = Inl (FileNotFoundError msg))
      = (\<exists>msg. load_knowledge_base fs data_dir = Inl (FileNotFoundError msg))"
    by (auto simp: init_knowledge_base_def split: sum.splits prod.splits)
  then have a: "(\<exists>msg. init_knowledge_base fs data_dir = Inl (FileNotFoundError msg))
      = (fs (db_path data_dir) = None)"
    by (simp only: load_FileNotFound_iff)
  have b: "init_knowledge_base fs data_dir
          = Inl (FileNotFoundError (''Knowledge base not found at '' @ db_path data_dir
                   @ ''. Please run data_scraper.py first.''))"
    if "fs (db_path data_dir) = None"
    using that by (simp add: init_knowledge_base_def load_knowledge_base_def)
  from a b show ?thesis by auto
qed

theorem store_absent_iff_no_database_file_witness:
  "(\<lambda>p. None) (db_path ''university_data'') = (None :: database option)
   \<and> init_knowledge_base (\<lambda>p. None) ''university_data''
       = Inl (FileNotFoundError
           ''Knowledge base not found at university_data/university_knowledge.db. Please run data_scraper.py first.'')"
proof -
  have h: "(\<lambda>p. None) (db_path ''university_data'') = (None :: database option)" by simp
  from store_absent_iff_no_database_file[of "\<lambda>p. None" "''university_data''"] h
  have "init_knowledge_base (\<lambda>p. None) ''university_data''
          = Inl (FileNotFoundError (''Knowledge base not found at '' @ db_path ''university_data''
                   @ ''. Please run data_scraper.py first.''))"
    by blast
  then show ?thesis by (simp add: db_path_def)
qed

section \<open>Properties of the name indexes\<close>

lemma dict_set_keys:
  "map fst (dict_set k v xs) = (if k \<in> fst ` set xs then map fst xs else map fst xs @ [k])"
  by (induction xs) fastforce+

lemma dict_set_set: "set (dict_set k v xs) \<subseteq> insert (k, v) (set xs)"
  by (induction xs) (auto split: if_splits)

lemma dict_set_distinct: "distinct (map fst xs) \<Longrightarrow> distinct (map fst (dict_set k v xs))"
  by (simp add: dict_set_keys)

lemma build_index_inv:
  assumes "distinct (map fst idx)" and "\<forall>(k, r) \<in> set idx. k = lower (name_of r)"
  shows "distinct (map fst (build_index name_of rows idx))
       \<and> (\<forall>(k, r) \<in> set (build_index name_of rows idx). k = lower (name_of r))"
  using assms
proof (induction rows arbitrary: idx)
  case Nil
  then show ?case by simp
next
  case (Cons row rows)
  let ?idx' = "if lower (name_of row) \<noteq> [] then dict_set (lower (name_of row)) row idx else idx"
  have d: "distinct (map fst ?idx')" using Cons.prems(1) by (simp add: dict_set_distinct)
  have k: "\<forall>(k, r) \<in> set ?idx'. k = lower (name_of r)"
    using Cons.prems(2) dict_set_set[of "lower (name_of row)" row idx] by auto
  from Cons.IH[OF d k] show ?case by (simp add: Let_def)
qed

lemma partial_match_find:
  "partial_match ql idx
     = map_option snd (find (\<lambda>(k, r). name_matches ql k) idx)"
  by (induction ql idx rule: partial_match.induct) (simp_all add: name_matches_def list_ex_iff)

lemma find_cong_set:
  "(\<And>x. x \<in> set xs \<Longrightarrow> P x = Q x) \<Longrightarrow> find P xs = find Q xs"
  by (induction xs) auto

lemma is_prefix_refl: "is_prefix s s"
  by (induction s) simp_all

lemma contains_self: "contains s s"
  by (cases s) (simp_all add: is_prefix_refl)

text \<open>
  Claim C10.  On the faculty index built by \<^verbatim>\<open>build_indexes\<close>: a query whose
  lowercased form is a key of the index gets the record stored under that key;
  any other query gets the first record, in index order, whose lowercased name
  contains the lowercased query or one of its whitespace-separated tokens; and
  the result is \<^verbatim>\<open>None\<close> exactly when no record of the index satisfies either
  condition.
\<close>

theorem find_faculty_by_name_exact_then_first_partial:
  assumes idx: "faculty_index kbase = build_index name fms []"
  shows "(\<forall>r. (lower q, r) \<in> set (faculty_index kbase) \<longrightarrow> find_faculty_by_name kbase q = Some r)
    \<and> (lower q \<notin> fst ` set (faculty_index kbase) \<longrightarrow>
          find_faculty_by_name kbase q
            = map_option snd
                (find (\<lambda>(k, r). name_matches (lower q) (lower (name r))) (faculty_index kbase)))
    \<and> (find_faculty_by_name kbase q = None
          \<longleftrightarrow> (\<forall>(k, r) \<in> set (faculty_index kbase).
                  lower (name r) \<noteq> lower q \<and> \<not> name_matches (lower q) (lower (name r))))"
proof -
  have inv: "distinct (map fst (faculty_index kbase))
       \<and> (\<forall>(k, r) \<in> set (faculty_index kbase). k = lower (name r))"
    unfolding idx by (rule build_index_inv) simp_all
  then have dist: "distinct (map fst (faculty_index kbase))"
    and key: "\<And>k r. (k, r) \<in> set (faculty_index kbase) \<Longrightarrow> k = lower (name r)"
    by auto
  have fnd: "find (\<lambda>(k, r). name_matches (lower q) k) (faculty_index kbase)
      = find (\<lambda>(k, r). name_matches (lower q) (lower (name r))) (faculty_index kbase)"
    by (rule find_cong_set) (auto dest: key)
  have A: "find_faculty_by_name kbase q = Some r" if "(lower q, r) \<in> set (faculty_index kbase)" for r
    using that dist by (simp add: find_faculty_by_name_def)
  have B: "find_faculty_by_name kbase q
            = map_option snd
                (find (\<lambda>(k, r). name_matches (lower q) (lower (name r))) (faculty_index kbase))"
    if "lower q \<notin> fst ` set (faculty_index kbase)"
  proof -
    from that have "map_of (faculty_index kbase) (lower q) = None"
      by (simp add: map_of_eq_None_iff)
    then have "find_faculty_by_name kbase q = partial_match (lower q) (faculty_index kbase)"
      by (simp add: find_faculty_by_name_def)
    also have "\<dots> = map_option snd
        (find (\<lambda>(k, r). name_matches (lower q) k) (faculty_index kbase))"
      by (rule partial_match_find)
    finally show ?thesis by (simp only: fnd)
  qed
  have C: "find_faculty_by_name kbase q = None
          \<longleftrightarrow> (\<forall>(k, r) \<in> set (faculty_index kbase).
                  lower (name r) \<noteq> lower q \<and> \<not> name_matches (lower q) (lower (name r)))"
  proof (cases "lower q \<in> fst ` set (faculty_index kbase)")
    case True
    then obtain r where r: "(lower q, r) \<in> set (faculty_index kbase)" by force
    from A[OF r] key[OF r] r show ?thesis by force
  next
    case False
    have ne: "lower (name r) \<noteq> lower q" if "(k, r) \<in> set (faculty_index kbase)" for k r
      using key[OF that] that False by force
    show ?thesis
      unfolding B[OF False] using ne by (auto simp: find_None_iff)
  qed
  from A B C show ?thesis by blast
qed



theorem find_faculty_by_name_exact_then_first_partial_witness:
  "faculty_index example_kb = build_index name example_faculty []
   \<and> (lower ''DR. SARA AHMED'', example_faculty ! 1) \<in> set (faculty_index example_kb)
   \<and> find_faculty_by_name example_kb ''DR. SARA AHMED'' = Some (example_faculty ! 1)
   \<and> lower ''Sara'' \<notin> fst ` set (faculty_index example_kb)
   \<and> find_faculty_by_name example_kb ''Sara'' = Some (example_faculty ! 1)
   \<and> find_faculty_by_name example_kb ''dr. who'' = Some (example_faculty ! 0)"
proof -
  have h: "faculty_index example_kb = build_index name example_faculty []"
    by (simp add: example_kb_def)
  have e: "(lower ''DR. SARA AHMED'', example_faculty ! 1) \<in> set (faculty_index example_kb)"
    by code_simp
  have n: "lower ''Sara'' \<notin> fst ` set (faculty_index example_kb)"
    by code_simp
  have f: "map_option snd (find (\<lambda>(k, r). name_matches (lower ''Sara'') (lower (name r)))
             (faculty_index example_kb)) = Some (example_faculty ! 1)"
    by code_simp
  have w: "find_faculty_by_name example_kb ''dr. who'' = Some (example_faculty ! 0)"
    by code_simp
  note t = find_faculty_by_name_exact_then_first_partial[OF h]
  from t[of "''DR. SARA AHMED''"] e
  have a: "find_faculty_by_name example_kb ''DR. SARA AHMED'' = Some (example_faculty ! 1)"
    by blast
  from t[of "''Sara''"] n f
  have b: "find_faculty_by_name example_kb ''Sara'' = Some (example_faculty ! 1)"
    by simp
  show ?thesis
    by (intro conjI) (rule h e a n b w)+
qed

section \<open>Properties of the crawler\<close>

lemma crawled_append: "crawled (xs @ ys) = crawled xs @ crawled ys"
  by (induction xs rule: crawled.induct) simp_all

lemma enqueue_effect:
  "\<exists>new. queue (enqueue ls s) = queue s @ new \<and> distinct new
      \<and> set new \<inter> visited_urls s = {}
      \<and> visited_urls (enqueue ls s) = visited_urls s \<union> set new
      \<and> printed (enqueue ls s) = printed s
      \<and> files (enqueue ls s) = files s
      \<and> pdf_links (enqueue ls s) = pdf_links s"
proof (induction ls arbitrary: s)
  case Nil
  show ?case by simp
next
  case (Cons l ls)
  show ?case
  proof (cases "l \<in> visited_urls s")
    case True
    with Cons.IH[of s] show ?thesis by simp
  next
    case False
    let ?s = "s\<lparr> visited_urls := insert l (visited_urls s), queue := queue s @ [l] \<rparr>"
    from Cons.IH[of ?s] obtain new where
      q: "queue (enqueue ls ?s) = queue ?s @ new" and d: "distinct new"
      and dj: "set new \<inter> visited_urls ?s = {}"
      and v: "visited_urls (enqueue ls ?s) = visited_urls ?s \<union> set new"
      and r: "printed (enqueue ls ?s) = printed ?s" "files (enqueue ls ?s) = files ?s"
        "pdf_links (enqueue ls ?s) = pdf_links ?s"
      by blast
    have e: "enqueue (l # ls) s = enqueue ls ?s" using False by simp
    show ?thesis
      unfolding e
      by (rule exI[of _ "l # new"]) (use q d dj v r False in auto)
  qed
qed

lemma find_pdfs_effect:
  "queue (find_pdfs w hrefs u s) = queue s
   \<and> visited_urls (find_pdfs w hrefs u s) = visited_urls s
   \<and> files (find_pdfs w hrefs u s) = files s
   \<and> crawled (printed (find_pdfs w hrefs u s)) = crawled (printed s)"
  by (induction hrefs arbitrary: s) (simp_all add: Let_def crawled_append)

lemma save_content_effect:
  "queue (save_content w u txt s) = queue s
   \<and> visited_urls (save_content w u txt s) = visited_urls s
   \<and> pdf_links (save_content w u txt s) = pdf_links s
   \<and> crawled (printed (save_content w u txt s)) = crawled (printed s)"
  by (simp add: save_content_def Let_def crawled_append)

lemma crawl_step_empty: "queue s = [] \<Longrightarrow> crawl_step w s = s"
  by (simp add: crawl_step_def)

lemma crawl_step_failed:
  assumes "queue s = u # rest" and "fetch w u = None"
  shows "crawl_step w s = s\<lparr> queue := rest, printed := printed s @ [Crawling u, Error_fetching u] \<rparr>"
  using assms by (simp add: crawl_step_def get_all_links_def)

lemma crawl_step_admits:
  assumes q: "queue s = u # rest"
  shows "\<exists>new. admitted (crawl_step w s) = admitted s @ new \<and> distinct new
      \<and> set new \<inter> visited_urls s = {}
      \<and> visited_urls s \<union> set new \<subseteq> visited_urls (crawl_step w s)"
proof (cases "fetch w u")
  case None
  show ?thesis
    by (rule exI[of _ "[]"])
       (simp add: crawl_step_failed[OF q None] admitted_def crawled_append q)
next
  case (Some sp)
  define s2 where "s2 = s\<lparr> queue := rest, printed := printed s @ [Crawling u],
      visited_urls := insert u (visited_urls s) \<rparr>"
  define page_text where "page_text = strip (collapse_ws False (join_space (paragraphs sp)))"
  define s3 where "s3 = (if page_text \<noteq> [] then save_content w u page_text s2 else s2)"
  define s4 where "s4 = find_pdfs w (anchors sp) u s3"
  define ls where "ls = collect_links w u (visited_urls s) (anchors sp) []"
  have step: "crawl_step w s = enqueue ls s4"
    using q Some
    by (simp add: crawl_step_def get_all_links_def Let_def s2_def s3_def s4_def page_text_def ls_def)
  have s3: "queue s3 = rest" "visited_urls s3 = insert u (visited_urls s)"
    "crawled (printed s3) = crawled (printed s) @ [u]"
    using save_content_effect[of w u page_text s2]
    by (auto simp: s3_def s2_def crawled_append)
  have s4: "queue s4 = rest" "visited_urls s4 = insert u (visited_urls s)"
    "crawled (printed s4) = crawled (printed s) @ [u]"
    using find_pdfs_effect[of w "anchors sp" u s3] s3 by (auto simp: s4_def)
  from enqueue_effect[of ls s4] obtain new where
    n: "queue (enqueue ls s4) = queue s4 @ new" "distinct new"
      "set new \<inter> visited_urls s4 = {}"
      "visited_urls (enqueue ls s4) = visited_urls s4 \<union> set new"
      "printed (enqueue ls s4) = printed s4"
    by blast
  show ?thesis
    unfolding step admitted_def
    by (rule exI[of _ new]) (use n s4 q in auto)
qed

lemma crawl_inv_step: "crawl_inv s \<Longrightarrow> crawl_inv (crawl_step w s)"
proof (cases "queue s")
  case Nil
  assume "crawl_inv s"
  then show ?thesis by (simp add: crawl_step_empty[OF Nil])
next
  case (Cons u rest)
  assume i: "crawl_inv s"
  from crawl_step_admits[OF Cons, of w] obtain new where
    n: "admitted (crawl_step w s) = admitted s @ new" "distinct new"
      "set new \<inter> visited_urls s = {}"
      "visited_urls s \<union> set new \<subseteq> visited_urls (crawl_step w s)"
    by blast
  show ?thesis
    using i n unfolding crawl_inv_def by auto
qed

lemma crawl_inv_start: "printed g = [] \<Longrightarrow> crawl_inv (crawl_start start_url g)"
  by (simp add: crawl_inv_def crawl_start_def admitted_def)

lemma crawl_inv_steps:
  "printed g = [] \<Longrightarrow> crawl_inv ((crawl_step w ^^ n) (crawl_start start_url g))"
  by (induction n) (simp_all add: crawl_inv_start crawl_inv_step)

lemma crawl_loop_steps:
  assumes "crawl_loop w s = Some s'"
  shows "\<exists>n. s' = (crawl_step w ^^ n) s \<and> queue s' = []"
proof (rule crawl_loop.raw_induct[where P = "\<lambda>w s s'. \<exists>n. s' = (crawl_step w ^^ n) s \<and> queue s' = []",
      OF _ assms])
  fix f :: "web \<Rightarrow> crawler_state \<Rightarrow> crawler_state option" and w s s'
  assume IH: "\<And>w s s'. f w s = Some s' \<Longrightarrow> \<exists>n. s' = (crawl_step w ^^ n) s \<and> queue s' = []"
    and eq: "(if queue s = [] then Some s else f w (crawl_step w s)) = Some s'"
  show "\<exists>n. s' = (crawl_step w ^^ n) s \<and> queue s' = []"
  proof (cases "queue s = []")
    case True
    with eq have "s' = s" by simp
    with True show ?thesis by (intro exI[of _ 0]) simp
  next
    case False
    with eq have c: "f w (crawl_step w s) = Some s'" by simp
    have "\<exists>n. s' = (crawl_step w ^^ n) (crawl_step w s) \<and> queue s' = []"
      by (rule IH[OF c])
    then obtain n where
      "s' = (crawl_step w ^^ n) (crawl_step w s)" "queue s' = []" by blast
    then show ?thesis by (intro exI[of _ "Suc n"]) (simp add: funpow_swap1)
  qed
qed

lemma two_page_fetch_seed:
  "fetch two_page_web base_url = Some \<lparr> anchors = [''/gone''], paragraphs = [] \<rparr>"
  by (simp add: two_page_web_def)

lemma two_page_fetch_gone: "fetch two_page_web (base_url @ ''/gone'') = None"
  by (simp add: two_page_web_def)

lemma two_page_links:
  "collect_links two_page_web base_url {base_url} [''/gone''] [] = [base_url @ ''/gone'']"
  by (simp add: two_page_web_def is_valid_def base_url_def)

lemma two_page_no_pdf: "find_pdfs two_page_web [''/gone''] base_url s = s"
  by (simp add: two_page_web_def endswith_def lower_def lower_char_def is_upper_def base_url_def)

lemma two_page_first_step:
  "(crawl_step two_page_web ^^ Suc 0) (crawl_start base_url (module_state Map.empty))
     = \<lparr> visited_urls = {base_url @ ''/gone'', base_url}, pdf_links = [], files = Map.empty,
         queue = [base_url @ ''/gone''], printed = [Crawling base_url] \<rparr>"
  by (simp add: crawl_step_def crawl_start_def module_state_def get_all_links_def
      two_page_fetch_seed two_page_links two_page_no_pdf strip_def strip_with_def Let_def
      del: collect_links.simps find_pdfs.simps)

text \<open>
  Claim C4.  In a crawl run, after any number of passes through the loop, the
  URLs admitted to the queue so far are pairwise distinct and all in the visited
  set; a pass only appends to that sequence, and only URLs that were not in the
  visited set; so when the run ends no URL has been taken from the queue and
  fetched twice.
\<close>

theorem frontier_admits_each_url_once:
  assumes "printed g = []"
  shows "distinct (admitted ((crawl_step w ^^ n) (crawl_start start_url g)))
    \<and> set (admitted ((crawl_step w ^^ n) (crawl_start start_url g)))
         \<subseteq> visited_urls ((crawl_step w ^^ n) (crawl_start start_url g))
    \<and> (\<exists>new. admitted ((crawl_step w ^^ Suc n) (crawl_start start_url g))
               = admitted ((crawl_step w ^^ n) (crawl_start start_url g)) @ new
             \<and> set new \<inter> visited_urls ((crawl_step w ^^ n) (crawl_start start_url g)) = {})
    \<and> (\<forall>s'. crawl w start_url g = Some s' \<longrightarrow> distinct (crawled (printed s')))"
proof -
  define sn where "sn = (crawl_step w ^^ n) (crawl_start start_url g)"
  have i: "crawl_inv sn" unfolding sn_def by (rule crawl_inv_steps[OF assms])
  have grow: "\<exists>new. admitted (crawl_step w sn) = admitted sn @ new
             \<and> set new \<inter> visited_urls sn = {}"
  proof (cases "queue sn")
    case Nil
    then show ?thesis by (intro exI[of _ "[]"]) (simp add: crawl_step_empty)
  next
    case (Cons u rest)
    from crawl_step_admits[OF Cons, of w] show ?thesis by blast
  qed
  have fin: "distinct (crawled (printed s'))" if "crawl w start_url g = Some s'" for s'
  proof -
    from that crawl_loop_steps[of w "crawl_start start_url g" s'] obtain m where
      m: "s' = (crawl_step w ^^ m) (crawl_start start_url g)" "queue s' = []"
      by (auto simp: crawl_def)
    have "crawl_inv s'" unfolding m(1) by (rule crawl_inv_steps[OF assms])
    then show ?thesis using m(2) by (simp add: crawl_inv_def admitted_def)
  qed
  from i grow fin show ?thesis
    unfolding crawl_inv_def sn_def by simp
qed


theorem frontier_admits_each_url_once_witness:
  "printed (module_state Map.empty) = []
   \<and> admitted ((crawl_step two_page_web ^^ Suc 0) (crawl_start base_url (module_state Map.empty)))
       = [base_url, base_url @ ''/gone'']
   \<and> distinct (admitted ((crawl_step two_page_web ^^ Suc 0)
         (crawl_start base_url (module_state Map.empty))))
   \<and> set (admitted ((crawl_step two_page_web ^^ Suc 0)
         (crawl_start base_url (module_state Map.empty))))
       \<subseteq> visited_urls ((crawl_step two_page_web ^^ Suc 0)
         (crawl_start base_url (module_state Map.empty)))"
proof -
  have h: "printed (module_state Map.empty) = []" by (simp add: module_state_def)
  have a: "admitted ((crawl_step two_page_web ^^ Suc 0)
      (crawl_start base_url (module_state Map.empty))) = [base_url, base_url @ ''/gone'']"
    by (simp only: two_page_first_step) (simp add: admitted_def)
  note t = frontier_admits_each_url_once[OF h, where w = two_page_web and n = "Suc 0"
      and start_url = base_url]
  show ?thesis
    by (intro conjI) (rule h a t[THEN conjunct1] t[THEN conjunct2, THEN conjunct1])+
qed

lemma chain_url_length: "length (chain_url n) = length base_url + 2 * n"
  by (induction n) simp_all

lemma chain_url_inj:
  assumes "chain_url m = chain_url n"
  shows "m = n"
proof -
  have "length (chain_url m) = length (chain_url n)"
    by (rule arg_cong[OF assms])
  then have "length base_url + 2 * m = length base_url + 2 * n"
    by (simp only: chain_url_length)
  then show ?thesis by simp
qed

lemma chain_url_no_hash: "CHR ''#'' \<notin> set (chain_url n)"
  by (induction n) (simp_all add: base_url_def)

lemma not_pdf: "\<not> endswith (lower (u @ ''/x'')) ''.pdf''"
  by (simp add: endswith_def lower_def lower_char_def is_upper_def)

lemma chain_step:
  assumes "chain_inv s"
  shows "chain_inv (crawl_step chain_web s)"
proof -
  from assms obtain n where q: "queue s = [chain_url n]"
    and v: "visited_urls s \<subseteq> chain_url ` {..n}"
    unfolding chain_inv_def by blast
  have fresh: "chain_url (Suc n) \<notin> visited_urls s"
    using v chain_url_inj by fastforce
  have hash: "CHR ''#'' \<notin> set (chain_url n @ ''/x'')"
    using chain_url_no_hash[of n] by simp
  have links: "collect_links chain_web (chain_url n) (visited_urls s) [chain_url n @ ''/x''] []
      = [chain_url (Suc n)]"
    using fresh hash
    by (simp add: chain_web_def is_valid_def Let_def)
  have step: "crawl_step chain_web s
      = s\<lparr> queue := [chain_url (Suc n)],
            printed := printed s @ [Crawling (chain_url n)],
            visited_urls := insert (chain_url (Suc n)) (insert (chain_url n) (visited_urls s)) \<rparr>"
    using fresh links
    by (simp add: crawl_step_def q get_all_links_def chain_web_def Let_def strip_def
        strip_with_def not_pdf)
  show ?thesis
    unfolding chain_inv_def step
    by (rule exI[of _ "Suc n"]) (use v in \<open>auto simp: atMost_Suc\<close>)
qed

lemma chain_never_ends:
  assumes "crawl_loop w s = Some s'"
  shows "w = chain_web \<longrightarrow> \<not> chain_inv s"
proof (rule crawl_loop.raw_induct[where P = "\<lambda>w s s'. w = chain_web \<longrightarrow> \<not> chain_inv s", OF _ assms])
  fix f :: "web \<Rightarrow> crawler_state \<Rightarrow> crawler_state option" and w s s'
  assume IH: "\<And>w s s'. f w s = Some s' \<Longrightarrow> w = chain_web \<longrightarrow> \<not> chain_inv s"
    and eq: "(if queue s = [] then Some s else f w (crawl_step w s)) = Some s'"
  show "w = chain_web \<longrightarrow> \<not> chain_inv s"
  proof (intro impI notI)
    assume w: "w = chain_web" and i: "chain_inv s"
    then have "queue s \<noteq> []" by (auto simp: chain_inv_def)
    with eq have "f w (crawl_step w s) = Some s'" by simp
    from IH[OF this] w have "\<not> chain_inv (crawl_step chain_web s)" by simp
    with chain_step[OF i] show False by contradiction
  qed
qed

text \<open>
  Claim C2 at a site without end.  \<^verbatim>\<open>crawl\<close> has no page ceiling: on the site
  whose page at \<open>u\<close> links to \<open>u/x\<close> the loop started by the module never
  returns.
\<close>

theorem crawl_unbounded_site_never_returns: "crawl chain_web base_url (module_state Map.empty) = None"
proof -
  have "chain_inv (crawl_start base_url (module_state Map.empty))"
    unfolding chain_inv_def
    by (rule exI[of _ 0]) (simp add: crawl_start_def module_state_def)
  then show ?thesis
    using chain_never_ends[of chain_web "crawl_start base_url (module_state Map.empty)"]
    by (cases "crawl chain_web base_url (module_state Map.empty)") (auto simp: crawl_def)
qed

text \<open>
  Claim C5.  When, in a crawl run, the URL at the head of the queue cannot be
  fetched, \<^verbatim>\<open>get_all_links\<close> returns no links and no page; the pass leaves the
  visited set, which holds that URL, the files and the PDF list as they were,
  adds nothing to the queue, and the loop goes on with the rest of the queue.
\<close>

theorem fetch_failure_degrades_one_page:
  assumes "printed g = []"
    and "queue ((crawl_step w ^^ n) (crawl_start start_url g)) = u # rest"
    and "fetch w u = None"
  shows "fst (get_all_links w u ((crawl_step w ^^ n) (crawl_start start_url g))) = ([], None)
    \<and> u \<in> visited_urls ((crawl_step w ^^ Suc n) (crawl_start start_url g))
    \<and> visited_urls ((crawl_step w ^^ Suc n) (crawl_start start_url g))
        = visited_urls ((crawl_step w ^^ n) (crawl_start start_url g))
    \<and> files ((crawl_step w ^^ Suc n) (crawl_start start_url g))
        = files ((crawl_step w ^^ n) (crawl_start start_url g))
    \<and> pdf_links ((crawl_step w ^^ Suc n) (crawl_start start_url g))
        = pdf_links ((crawl_step w ^^ n) (crawl_start start_url g))
    \<and> queue ((crawl_step w ^^ Suc n) (crawl_start start_url g)) = rest
    \<and> crawl_loop w ((crawl_step w ^^ n) (crawl_start start_url g))
        = crawl_loop w ((crawl_step w ^^ Suc n) (crawl_start start_url g))"
proof -
  define s where "s = (crawl_step w ^^ n) (crawl_start start_url g)"
  have q: "queue s = u # rest" using assms(2) by (simp add: s_def)
  have "crawl_inv s" unfolding s_def by (rule crawl_inv_steps[OF assms(1)])
  then have uv: "u \<in> visited_urls s" using q by (auto simp: crawl_inv_def admitted_def)
  have st: "crawl_step w s = s\<lparr> queue := rest, printed := printed s @ [Crawling u, Error_fetching u] \<rparr>"
    by (rule crawl_step_failed[OF q assms(3)])
  have lp: "crawl_loop w s = crawl_loop w (crawl_step w s)"
    using q by (subst crawl_loop.simps) simp
  have ga: "fst (get_all_links w u s) = ([], None)"
    using assms(3) by (simp add: get_all_links_def)
  show ?thesis
    using uv lp ga unfolding funpow.simps o_apply s_def[symmetric] by (simp add: st)
qed


theorem fetch_failure_degrades_one_page_witness:
  "printed (module_state Map.empty) = []
   \<and> queue ((crawl_step two_page_web ^^ Suc 0) (crawl_start base_url (module_state Map.empty)))
       = [base_url @ ''/gone'']
   \<and> fetch two_page_web (base_url @ ''/gone'') = None
   \<and> base_url @ ''/gone''
       \<in> visited_urls ((crawl_step two_page_web ^^ Suc (Suc 0))
            (crawl_start base_url (module_state Map.empty)))
   \<and> files ((crawl_step two_page_web ^^ Suc (Suc 0)) (crawl_start base_url (module_state Map.empty)))
       = files ((crawl_step two_page_web ^^ Suc 0) (crawl_start base_url (module_state Map.empty)))
   \<and> queue ((crawl_step two_page_web ^^ Suc (Suc 0)) (crawl_start base_url (module_state Map.empty)))
       = []"
proof -
  have h: "printed (module_state Map.empty) = []" by (simp add: module_state_def)
  have q: "queue ((crawl_step two_page_web ^^ Suc 0) (crawl_start base_url (module_state Map.empty)))
       = [base_url @ ''/gone'']"
    by (simp only: two_page_first_step) simp
  note t = fetch_failure_degrades_one_page[OF h q two_page_fetch_gone]
  show ?thesis
    by (intro conjI)
       (rule h q two_page_fetch_gone t[THEN conjunct2, THEN conjunct1]
          t[THEN conjunct2, THEN conjunct2, THEN conjunct2, THEN conjunct1]
          t[THEN conjunct2, THEN conjunct2, THEN conjunct2, THEN conjunct2, THEN conjunct2,
            THEN conjunct1])+
qed

section \<open>Properties of chat\<close>

lemma search_pages_tokenless:
  assumes "preprocess_text (content p) \<noteq> []"
  shows "search_pages [] (p # ps) = Inl ZeroDivisionError"
  using assms by (simp add: calculate_tf_idf_empty_query)

lemma semantic_search_tokenless:
  assumes "preprocess_text query = []" and "kb_pages kbase = p # ps"
    and "preprocess_text (content p) \<noteq> []"
  shows "semantic_search kbase query limit = Inl ZeroDivisionError"
  using assms by (simp add: semantic_search_def search_pages_tokenless del: search_pages.simps)

lemma generate_response_tokenless:
  assumes "preprocess_text query = []" and "detect_intent query = general"
    and "kb_pages kbase = p # ps" and "preprocess_text (content p) \<noteq> []"
  shows "generate_response kbase query = Inl ZeroDivisionError"
  using assms
  by (simp add: generate_response_def handle_general_query_def semantic_search_tokenless)

text \<open>
  What \<^verbatim>\<open>chat\<close> returns or raises is what \<^verbatim>\<open>generate_response\<close> does on the
  knowledge base and the query: the conversation log and the clock are not read.
  The log grows by the user entry, and by the bot entry when a response is
  returned; the knowledge base is left as it was.
\<close>

lemma chat_result: "fst (chat cb t1 t2 query) = generate_response (kb cb) query"
  by (simp add: chat_def Let_def split: sum.splits)

lemma chat_history:
  "conversation_history (snd (chat cb t1 t2 query))
     = conversation_history cb @ UserEntry t1 query #
         (case generate_response (kb cb) query of
            Inl e \<Rightarrow> []
          | Inr response \<Rightarrow> [BotEntry t2 response])"
  by (simp add: chat_def Let_def split: sum.splits)

lemma chat_kb: "kb (snd (chat cb t1 t2 query)) = kb cb"
  by (simp add: chat_def Let_def split: sum.splits)

lemma chat_independent_of_history:
  "kb cb1 = kb cb2 \<Longrightarrow> fst (chat cb1 t1 t2 query) = fst (chat cb2 t1' t2' query)"
  by (simp add: chat_result)

lemma hi_tokens: "preprocess_text ''hi'' = []"
  by code_simp

lemma hi_intent: "detect_intent ''hi'' = general"
  by code_simp

lemma one_page_tokens: "preprocess_text ''University of Malakand was established in 2001.'' \<noteq> []"
  by code_simp

lemma one_page_response: "generate_response one_page_kb ''hi'' = Inl ZeroDivisionError"
  by (rule generate_response_tokenless[OF hi_tokens hi_intent, where ps = "[]"
        and p = "\<lparr> url = ''https://uom.edu.pk/about'', title = ''About'',
                         content = ''University of Malakand was established in 2001.'',
                         content_type = ''general'' \<rparr>"])
     (simp_all add: one_page_kb_def one_page_tokens)

text \<open>
  Claim C1 at the query "hi" on a knowledge base with one page of non-empty
  content: no token of the query survives preprocessing, the intent is general,
  and \<^verbatim>\<open>chat\<close> raises \<^verbatim>\<open>ZeroDivisionError\<close> instead of returning a string.
\<close>

theorem chat_raises_on_tokenless_query:
  "fst (chat \<lparr> kb = one_page_kb, conversation_history = [] \<rparr>
          ''2024-05-01T10:00:00'' ''2024-05-01T10:00:01'' ''hi'')
     = Inl ZeroDivisionError"
  by (simp add: chat_result one_page_response)

text \<open>
  Claim C9 at the same call: the exception leaves \<^verbatim>\<open>chat\<close> after the user
  entry was appended to the conversation log and before the bot entry is, so the
  call appends one entry, not two.
\<close>

theorem chat_raising_call_appends_no_bot_entry:
  "conversation_history (snd (chat \<lparr> kb = one_page_kb, conversation_history = [] \<rparr>
          ''2024-05-01T10:00:00'' ''2024-05-01T10:00:01'' ''hi''))
     = [UserEntry ''2024-05-01T10:00:00'' ''hi'']"
  by (simp add: chat_history one_page_response)

end
